theory Spec2Isabelle
  imports Complex_Main
begin

section \<open>The curve evaluator of rebalance.py\<close>

text \<open>
  The script computes with Python floats (binary64). The curve evaluator is modelled with
  exact rationals: a decimal literal of the source is the rational it denotes,
  \<open>round(m, 2)\<close> rounds the exact value half to even, and a row is an unbounded integer. On
  the configured curves the exact value of \<open>m * 100\<close> before rounding is a fraction with
  denominator 17 or 34 and is never within 1/34 of a rounding tie, so the float
  computation and the exact one pick the same two-decimal number. The tolerance test
  \<open>abs(new_mult - old_mult) < 0.001\<close> is modelled on binary64 values: the stored literal,
  the computed multiplier and 0.001 are each rounded to the nearest float, and so is the
  difference of the first two. Python's limits on very large integers (the digit limit
  of \<open>int(...)\<close>, the overflow of \<open>row / MAX_ROW\<close> beyond the float range) are outside
  the model.
\<close>

subsection \<open>Configuration tables\<close>

definition CURVES_items :: "(string \<times> rat \<times> rat) list" where
  "CURVES_items =
    [(''allIncome'',          (1/100, 3/100)),
     (''businessRevenue'',    (2/100, 6/100)),
     (''customerAttraction'', (3/100, 8/100)),
     (''jobEfficiency'',      (5/100, 14/100)),
     (''costReduction'',      (2/100, 6/100)),
     (''stockReturn'',        (3/100, 8/100)),
     (''cryptoReturn'',       (3/100, 9/100)),
     (''realEstateRent'',     (3/100, 9/100)),
     (''gamblingLuck'',       (2/100, 6/100)),
     (''offlineEfficiency'',  (3/100, 9/100)),
     (''xpGain'',             (3/100, 8/100)),
     (''prestigeGain'',       (2/100, 6/100)),
     (''loanRate'',           (2/100, 6/100)),
     (''depositRate'',        (5/100, 12/100))]"

definition CURVES :: "string \<rightharpoonup> rat \<times> rat" where
  "CURVES = map_of CURVES_items"

definition NEGATIVE_TARGETS :: "string set" where
  "NEGATIVE_TARGETS = {''costReduction'', ''loanRate''}"

definition MAX_ROW :: int where
  "MAX_ROW = 17"

subsection \<open>Rounding\<close>

text \<open>Python's \<open>round(x, ndigits)\<close>: to the nearest multiple of \<open>10 ^ -ndigits\<close>, a tie
  going to the even one.\<close>

definition round_half_even :: "rat \<Rightarrow> int" where
  "round_half_even x =
     (let f = \<lfloor>x\<rfloor>; r = x - of_int f
      in if r < 1/2 then f
         else if 1/2 < r then f + 1
         else if even f then f else f + 1)"

definition py_round :: "rat \<Rightarrow> nat \<Rightarrow> rat" where
  "py_round x ndigits = of_int (round_half_even (x * 10 ^ ndigits)) / 10 ^ ndigits"

subsection \<open>compute_mult\<close>

definition compute_mult :: "int \<Rightarrow> string \<Rightarrow> rat option" where
  "compute_mult row target =
     (case CURVES target of
        None \<Rightarrow> None
      | Some (base, top_v) \<Rightarrow>
          (let t = min (of_int row / of_int MAX_ROW) 1;
               m = base + (top_v - base) * t;
               m = (if row \<in> {8, 12, 16} then m * (3/2)
                    else if row = 17 then m * 2
                    else m);
               m = py_round m 2;
               m = max (1/100) m;
               m = (if target \<in> NEGATIVE_TARGETS then - m else m)
           in Some m))"

text \<open>The same pipeline with the checkpoint branch replaced by one given factor: what
  \<open>compute_mult\<close> would return if exactly that factor were applied at the row. It is
  used to say which bonus a row receives.\<close>

definition mult_with_factor :: "rat \<Rightarrow> int \<Rightarrow> string \<Rightarrow> rat option" where
  "mult_with_factor k row target =
     (case CURVES target of
        None \<Rightarrow> None
      | Some (base, top_v) \<Rightarrow>
          (let t = min (of_int row / of_int MAX_ROW) 1;
               m = (base + (top_v - base) * t) * k;
               m = py_round m 2;
               m = max (1/100) m;
               m = (if target \<in> NEGATIVE_TARGETS then - m else m)
           in Some m))"

text \<open>The magnitude the pipeline produces for a curve, a row and a factor.\<close>

definition curve_magnitude :: "rat \<Rightarrow> rat \<Rightarrow> rat \<Rightarrow> int \<Rightarrow> rat" where
  "curve_magnitude k base top_v row =
     max (1/100) (py_round ((base + (top_v - base) * min (of_int row / of_int MAX_ROW) 1) * k) 2)"

section \<open>Text of the skill files\<close>

text \<open>
  A line is a Python \<open>str\<close>. The model's \<open>string\<close> holds one \<open>char\<close> per code point and
  so covers the text whose code points are below 256. The character classes are those of
  Python's \<open>re\<close> on \<open>str\<close> patterns in that range.
\<close>

definition is_digit :: "char \<Rightarrow> bool" where
  "is_digit c = (let n = (of_char c :: nat) in 48 \<le> n \<and> n \<le> 57)"

definition is_space :: "char \<Rightarrow> bool" where
  "is_space c = (let n = (of_char c :: nat)
                 in (9 \<le> n \<and> n \<le> 13) \<or> (28 \<le> n \<and> n \<le> 32) \<or> n = 133 \<or> n = 160)"

definition is_word :: "char \<Rightarrow> bool" where
  "is_word c = (let n = (of_char c :: nat)
                in (48 \<le> n \<and> n \<le> 57) \<or> (65 \<le> n \<and> n \<le> 90) \<or> n = 95 \<or> (97 \<le> n \<and> n \<le> 122)
                   \<or> n = 170 \<or> n = 178 \<or> n = 179 \<or> n = 181 \<or> n = 185 \<or> n = 186
                   \<or> (188 \<le> n \<and> n \<le> 190) \<or> (192 \<le> n \<and> n \<le> 214)
                   \<or> (216 \<le> n \<and> n \<le> 246) \<or> 248 \<le> n)"

subsection \<open>Numbers and their text\<close>

text \<open>\<open>int(s)\<close> on a run of decimal digits.\<close>

definition digit_val :: "char \<Rightarrow> nat" where
  "digit_val c = of_char c - 48"

definition parse_nat :: "string \<Rightarrow> nat" where
  "parse_nat s = foldl (\<lambda>n c. 10 * n + digit_val c) 0 s"

text \<open>The exact decimal value of a literal of the shape \<open>-?\d+\.?\d*\<close>.\<close>

definition parse_float :: "string \<Rightarrow> rat" where
  "parse_float s =
     (let neg = (case s of c # _ \<Rightarrow> c = CHR ''-'' | [] \<Rightarrow> False);
          u = (if neg then tl s else s);
          ip = takeWhile is_digit u;
          fp = (case dropWhile is_digit u of _ # fs \<Rightarrow> fs | [] \<Rightarrow> []);
          v = of_nat (parse_nat ip) + of_nat (parse_nat fp) / 10 ^ length fp
      in if neg then - v else v)"

text \<open>\<open>str(n)\<close> for a natural number.\<close>

definition digit_char :: "nat \<Rightarrow> char" where
  "digit_char d = ''0123456789'' ! d"

fun str_nat :: "nat \<Rightarrow> string" where
  "str_nat n = (if n < 10 then [digit_char n] else str_nat (n div 10) @ [digit_char (n mod 10)])"

declare str_nat.simps [simp del]

text \<open>The last \<open>d\<close> decimal digits of \<open>n\<close>, zero-padded.\<close>

definition fixed_digits :: "nat \<Rightarrow> nat \<Rightarrow> string" where
  "fixed_digits d n = map (\<lambda>k. digit_char ((n div 10 ^ k) mod 10)) (rev [0 ..< d])"

text \<open>The format \<open>f"{v:.<d>f}"\<close>: sign, integer part, point, exactly \<open>d\<close> decimals.\<close>

definition fmt_fixed :: "nat \<Rightarrow> rat \<Rightarrow> string" where
  "fmt_fixed d v =
     (let n = nat (round_half_even (\<bar>v\<bar> * 10 ^ d))
      in (if v < 0 then ''-'' else '''') @ str_nat (n div 10 ^ d) @ ''.'' @ fixed_digits d n)"

definition fmt_pct :: "rat \<Rightarrow> string" where
  "fmt_pct v =
     (let p = py_round (\<bar>v\<bar> * 100) 1
      in if p = of_int \<lfloor>p\<rfloor> then str_nat (nat \<lfloor>p\<rfloor>) else fmt_fixed 1 p)"

subsection \<open>Binary64 values\<close>

text \<open>
  The tolerance test of the patcher is made on Python floats. A finite binary64 value is
  the rational it denotes; \<open>None\<close> stands for an infinity. \<open>to_double\<close> is the rounding of
  IEEE 754 to the nearest binary64 value, ties to even: the value is \<open>n * 2 ^ e\<close> with
  \<open>n\<close> the nearest integer to \<open>a / 2 ^ e\<close>, where \<open>e\<close> leaves 53 significant bits and is at
  least \<open>-1074\<close>; the largest finite value is \<open>(2 ^ 53 - 1) * 2 ^ 971\<close>, and what rounds
  above it is an infinity. It is what \<open>float(s)\<close> does to the decimal value of a literal
  and what a float subtraction does to the exact difference of its operands.
\<close>

text \<open>The number of binary digits of a positive integer.\<close>

function bit_length :: "int \<Rightarrow> nat" where
  "bit_length n = (if n \<le> 0 then 0 else Suc (bit_length (n div 2)))"
  by pat_completeness auto

termination
  by (relation "measure nat") auto

declare bit_length.simps [simp del]

text \<open>For \<open>0 < a\<close>, the integer \<open>e\<close> with \<open>2 ^ e \<le> a < 2 ^ (e + 1)\<close>.\<close>

definition floor_log2 :: "rat \<Rightarrow> int" where
  "floor_log2 a =
     (if 1 \<le> a then int (bit_length \<lfloor>a\<rfloor>) - 1
      else - int (bit_length (\<lceil>1 / a\<rceil> - 1)))"

definition pow2 :: "int \<Rightarrow> rat" where
  "pow2 e = (if 0 \<le> e then 2 ^ nat e else 1 / 2 ^ nat (- e))"

definition to_double :: "rat \<Rightarrow> rat option" where
  "to_double x =
     (if x = 0 then Some 0
      else (let a = \<bar>x\<bar>;
                e = max (floor_log2 a) (- 1022) - 52;
                n = round_half_even (a / pow2 e)
            in if 971 < e \<or> (e = 971 \<and> 9007199254740992 \<le> n) then None
               else Some ((if x < 0 then - 1 else 1) * of_int n * pow2 e)))"

text \<open>\<open>float(s)\<close> on a literal of the shape \<open>-?\d+\.?\d*\<close>.\<close>

definition py_float :: "string \<Rightarrow> rat option" where
  "py_float s = to_double (parse_float s)"

text \<open>The test \<open>abs(new_mult - old_mult) < 0.001\<close>: \<open>new_mult\<close> is the float nearest to the
  two-decimal value that \<open>compute_mult\<close> returns, \<open>0.001\<close> is the float nearest to 1/1000, and
  the difference is rounded once more. An infinite operand gives an infinite or undefined
  difference, for which the comparison is false.\<close>

definition within_tolerance :: "rat \<Rightarrow> rat option \<Rightarrow> bool" where
  "within_tolerance new_mult old_mult =
     (case (to_double new_mult, old_mult, to_double (1/1000)) of
        (Some n, Some old, Some t) \<Rightarrow>
          (case to_double (n - old) of Some d \<Rightarrow> \<bar>d\<bar> < t | None \<Rightarrow> False)
      | _ \<Rightarrow> False)"

subsection \<open>The regular expressions\<close>

fun strip_prefix :: "string \<Rightarrow> string \<Rightarrow> string option" where
  "strip_prefix [] s = Some s"
| "strip_prefix (p # ps) [] = None"
| "strip_prefix (p # ps) (c # cs) = (if p = c then strip_prefix ps cs else None)"

text \<open>An optional single character, taken when present (\<open>-?\<close>, \<open>\.?\<close>).\<close>

definition opt_char :: "char \<Rightarrow> string \<Rightarrow> string \<times> string" where
  "opt_char x s = (case s of c # r \<Rightarrow> if c = x then ([x], r) else ([], s) | [] \<Rightarrow> ([], s))"

text \<open>\<open>-?\d+\.?\d*\<close> at the start of the text: the literal and what follows it.\<close>

definition match_number :: "string \<Rightarrow> (string \<times> string) option" where
  "match_number s =
     (let (sg, s1) = opt_char (CHR ''-'') s;
          ds = takeWhile is_digit s1;
          s2 = dropWhile is_digit s1
      in if ds = [] then None
         else (let (dot, s3) = opt_char (CHR ''.'') s2;
                   fs = takeWhile is_digit s3;
                   s4 = dropWhile is_digit s3
               in Some (sg @ ds @ dot @ fs, s4)))"

text \<open>\<open>(multiplier:\s*)(-?\d+\.?\d*)\<close> at the start of the text: group 1, the literal
  and what follows.\<close>

definition match_multiplier :: "string \<Rightarrow> (string \<times> string \<times> string) option" where
  "match_multiplier s =
     (case strip_prefix ''multiplier:'' s of
        None \<Rightarrow> None
      | Some r \<Rightarrow>
          (case match_number (dropWhile is_space r) of
             None \<Rightarrow> None
           | Some (lit, rest) \<Rightarrow> Some (''multiplier:'' @ takeWhile is_space r, lit, rest)))"

text \<open>\<open>.*?multiplier:\s*(-?\d+\.?\d*)\<close> at the start of the text; \<open>.\<close> is any character
  but the newline.\<close>

fun find_multiplier :: "string \<Rightarrow> string option" where
  "find_multiplier [] = None"
| "find_multiplier (c # cs) =
     (case match_multiplier (c # cs) of
        Some (g, lit, rest) \<Rightarrow> Some lit
      | None \<Rightarrow> if c = CHR 0x0A then None else find_multiplier cs)"

text \<open>\<open>target:\s*'(\w+)'.*?multiplier:\s*(-?\d+\.?\d*)\<close> at the start of the text: groups 1
  and 2.\<close>

definition match_target :: "string \<Rightarrow> (string \<times> string) option" where
  "match_target s =
     (case strip_prefix ''target:'' s of
        None \<Rightarrow> None
      | Some r \<Rightarrow>
          (case dropWhile is_space r of
             [] \<Rightarrow> None
           | q # r1 \<Rightarrow>
               if q \<noteq> CHR 0x27 \<or> takeWhile is_word r1 = [] then None
               else (case dropWhile is_word r1 of
                       [] \<Rightarrow> None
                     | q' # r2 \<Rightarrow>
                         if q' \<noteq> CHR 0x27 then None
                         else (case find_multiplier r2 of
                                 None \<Rightarrow> None
                               | Some lit \<Rightarrow> Some (takeWhile is_word r1, lit)))))"

text \<open>\<open>re.search\<close> of that pattern: the leftmost position where it matches.\<close>

fun search_target :: "string \<Rightarrow> (string \<times> string) option" where
  "search_target [] = None"
| "search_target (c # cs) =
     (case match_target (c # cs) of Some r \<Rightarrow> Some r | None \<Rightarrow> search_target cs)"

text \<open>\<open>row:\s*(\d+)\<close> at the start of the text: group 1.\<close>

definition match_row :: "string \<Rightarrow> string option" where
  "match_row s =
     (case strip_prefix ''row:'' s of
        None \<Rightarrow> None
      | Some r \<Rightarrow>
          (let ds = takeWhile is_digit (dropWhile is_space r)
           in if ds = [] then None else Some ds))"

text \<open>\<open>re.search(r'\brow:\s*(\d+)', s)\<close>. The flag says whether the character before the
  position is a word character: \<open>\b\<close> before \<open>r\<close> holds exactly when it is not.\<close>

fun search_row_from :: "bool \<Rightarrow> string \<Rightarrow> string option" where
  "search_row_from pw [] = None"
| "search_row_from pw (c # cs) =
     (case (if pw then None else match_row (c # cs)) of
        Some ds \<Rightarrow> Some ds
      | None \<Rightarrow> search_row_from (is_word c) cs)"

definition search_row :: "string \<Rightarrow> string option" where
  "search_row s = search_row_from False s"

text \<open>\<open>re.sub(r'(multiplier:\s*)-?\d+\.?\d*', r'\g<1>' + repl, s, count=1)\<close>.\<close>

fun sub_multiplier :: "string \<Rightarrow> string \<Rightarrow> string" where
  "sub_multiplier repl [] = []"
| "sub_multiplier repl (c # cs) =
     (case match_multiplier (c # cs) of
        Some (g, lit, rest) \<Rightarrow> g @ repl @ rest
      | None \<Rightarrow> c # sub_multiplier repl cs)"

text \<open>The leftmost place of a line where \<open>(multiplier:\s*)-?\d+\.?\d*\<close> matches, as the text
  before the match, group 1, the literal and the text after it: the place where
  \<open>sub_multiplier\<close> substitutes.\<close>

fun first_multiplier :: "string \<Rightarrow> (string \<times> string \<times> string \<times> string) option" where
  "first_multiplier [] = None"
| "first_multiplier (c # cs) =
     (case match_multiplier (c # cs) of
        Some (g, lit, rest) \<Rightarrow> Some ([], g, lit, rest)
      | None \<Rightarrow>
          (case first_multiplier cs of
             None \<Rightarrow> None
           | Some (pre, g, lit, rest) \<Rightarrow> Some (c # pre, g, lit, rest)))"

text \<open>\<open>(effectDescription:\s*')[+-]\d+(?:\.\d+)?(%)\<close> at the start of the text: group 1 and
  what follows the match.\<close>

definition match_description :: "string \<Rightarrow> (string \<times> string) option" where
  "match_description s =
     (case strip_prefix ''effectDescription:'' s of
        None \<Rightarrow> None
      | Some r \<Rightarrow>
          (case dropWhile is_space r of
             q # sg # r1 \<Rightarrow>
               if q \<noteq> CHR 0x27 \<or> (sg \<noteq> CHR ''+'' \<and> sg \<noteq> CHR ''-'')
                  \<or> takeWhile is_digit r1 = [] then None
               else (let r2 = dropWhile is_digit r1;
                         r3 = (case r2 of
                                 c # f \<Rightarrow> if c = CHR ''.'' \<and> takeWhile is_digit f \<noteq> []
                                          then dropWhile is_digit f else r2
                               | [] \<Rightarrow> r2)
                     in case r3 of
                          c # rest \<Rightarrow> if c = CHR ''%''
                                       then Some (''effectDescription:'' @ takeWhile is_space r @ [q], rest)
                                       else None
                        | [] \<Rightarrow> None)
           | _ \<Rightarrow> None))"

text \<open>\<open>re.sub(r"(effectDescription:\s*')[+-]\d+(?:\.\d+)?(%)", rf"\g<1>{repl}\2", s, count=1)\<close>.\<close>

fun sub_description :: "string \<Rightarrow> string \<Rightarrow> string" where
  "sub_description repl [] = []"
| "sub_description repl (c # cs) =
     (case match_description (c # cs) of
        Some (g, rest) \<Rightarrow> g @ repl @ ''%'' @ rest
      | None \<Rightarrow> c # sub_description repl cs)"

text \<open>\<open>p in s\<close> for strings.\<close>

fun contains :: "string \<Rightarrow> string \<Rightarrow> bool" where
  "contains p [] = (p = [])"
| "contains p (c # cs) = (strip_prefix p (c # cs) \<noteq> None \<or> contains p cs)"

section \<open>process_skill_file\<close>

text \<open>The scan for the row marker: \<open>for j in range(i - 1, max(i - 8, -1), -1)\<close> visits
  \<open>i - 1\<close> down to \<open>max (i - 7) 0\<close>; the first line with a match decides.\<close>

fun first_row :: "string list \<Rightarrow> nat list \<Rightarrow> nat option" where
  "first_row lines [] = None"
| "first_row lines (j # js) =
     (case search_row (lines ! j) of
        Some ds \<Rightarrow> Some (parse_nat ds)
      | None \<Rightarrow> first_row lines js)"

definition find_row :: "string list \<Rightarrow> nat \<Rightarrow> nat option" where
  "find_row lines i = first_row lines (rev [i - 7 ..< i])"

text \<open>The scan for the description: \<open>for j in range(i - 1, max(i - 5, -1), -1)\<close>; the first
  line containing \<open>effectDescription\<close> is substituted and ends the scan.\<close>

fun patch_description :: "string \<Rightarrow> string list \<Rightarrow> nat list \<Rightarrow> string list" where
  "patch_description repl lines [] = lines"
| "patch_description repl lines (j # js) =
     (if contains ''effectDescription'' (lines ! j)
      then lines[j := sub_description repl (lines ! j)]
      else patch_description repl lines js)"

text \<open>The body of the loop for index \<open>i\<close>, on the pair of the lines and the change count.\<close>

definition process_line :: "nat \<Rightarrow> string list \<times> nat \<Rightarrow> string list \<times> nat" where
  "process_line i st =
     (let (lines, changes) = st
      in case search_target (lines ! i) of
           None \<Rightarrow> st
         | Some (target, lit) \<Rightarrow>
             (let old_mult = py_float lit
              in case find_row lines i of
                   None \<Rightarrow> st
                 | Some row \<Rightarrow>
                     (case compute_mult (int row) target of
                        None \<Rightarrow> st
                      | Some new_mult \<Rightarrow>
                          if within_tolerance new_mult old_mult then st
                          else (let lines = lines[i := sub_multiplier (fmt_fixed 2 new_mult) (lines ! i)];
                                    sign = (if new_mult \<ge> 0 then ''+'' else ''-'');
                                    ps = fmt_pct new_mult;
                                    lines = patch_description (sign @ ps) lines (rev [i - 4 ..< i])
                                in (lines, changes + 1)))))"

text \<open>The function without its file access: from the lines read to the lines written and
  the count returned.\<close>

definition process_skill_file :: "string list \<Rightarrow> string list \<times> nat" where
  "process_skill_file lines = fold process_line [0 ..< length lines] (lines, 0)"


section \<open>The milestone rewards\<close>

definition MILESTONE_REWARDS_items :: "((string \<times> string) \<times> rat) list" where
  "MILESTONE_REWARDS_items =
    [((''ms_points_10'',    ''global_multiplier''), 8/1000),
     ((''ms_points_50'',    ''prestige_gain''),     15/1000),
     ((''ms_points_100'',   ''global_multiplier''), 15/1000),
     ((''ms_points_500'',   ''prestige_gain''),     25/1000),
     ((''ms_points_500'',   ''xp_gain''),           15/1000),
     ((''ms_points_1000'',  ''global_multiplier''), 3/100),
     ((''ms_points_5000'',  ''global_multiplier''), 5/100),
     ((''ms_points_5000'',  ''prestige_gain''),     4/100),
     ((''ms_points_10000'', ''global_multiplier''), 8/100),
     ((''ms_points_10000'', ''offline_bonus''),     3/100),
     ((''ms_rebirth_1'',    ''prestige_gain''),     8/1000),
     ((''ms_rebirth_5'',    ''job_efficiency''),    15/1000),
     ((''ms_rebirth_10'',   ''prestige_gain''),     25/1000),
     ((''ms_rebirth_10'',   ''global_multiplier''), 15/1000),
     ((''ms_rebirth_25'',   ''global_multiplier''), 3/100),
     ((''ms_rebirth_25'',   ''loan_discount''),     3/1000),
     ((''ms_rebirth_50'',   ''global_multiplier''), 5/100),
     ((''ms_rebirth_50'',   ''prestige_gain''),     4/100),
     ((''ms_rebirth_50'',   ''offline_bonus''),     25/1000),
     ((''ms_rebirth_100'',  ''global_multiplier''), 8/100),
     ((''ms_rebirth_100'',  ''prestige_gain''),     6/100),
     ((''ms_upgrades_5'',   ''prestige_gain''),     8/1000),
     ((''ms_upgrades_25'',  ''global_multiplier''), 15/1000),
     ((''ms_upgrades_25'',  ''cost_reduction''),    8/1000),
     ((''ms_upgrades_50'',  ''prestige_gain''),     3/100),
     ((''ms_upgrades_50'',  ''xp_gain''),           2/100)]"

definition MILESTONE_REWARDS :: "string \<times> string \<rightharpoonup> rat" where
  "MILESTONE_REWARDS = map_of MILESTONE_REWARDS_items"

text \<open>\<open>s.rstrip('0')\<close>.\<close>

definition rstrip_zero :: "string \<Rightarrow> string" where
  "rstrip_zero s = rev (dropWhile (\<lambda>c. c = CHR ''0'') (rev s))"

text \<open>The text written for a reward value: \<open>f"{nv:.4f}".rstrip('0')\<close>, with a \<open>0\<close> put back
  when the point is left last.\<close>

definition fmt_milestone :: "rat \<Rightarrow> string" where
  "fmt_milestone nv =
     (let ns = rstrip_zero (fmt_fixed 4 nv)
      in if ns \<noteq> [] \<and> last ns = CHR ''.'' then ns @ ''0'' else ns)"

text \<open>\<open>\d+\.?\d*\<close> at the start of the text: the literal and what follows it.\<close>

definition match_unsigned :: "string \<Rightarrow> (string \<times> string) option" where
  "match_unsigned s =
     (let ds = takeWhile is_digit s;
          s2 = dropWhile is_digit s
      in if ds = [] then None
         else (let (dot, s3) = opt_char (CHR ''.'') s2;
                   fs = takeWhile is_digit s3;
                   s4 = dropWhile is_digit s3
               in Some (ds @ dot @ fs, s4)))"

text \<open>\<open>id:\s*'(ms_\w+)'\<close> at the start of the text: group 1.\<close>

definition match_ms_id :: "string \<Rightarrow> string option" where
  "match_ms_id s =
     (case strip_prefix ''id:'' s of
        None \<Rightarrow> None
      | Some r \<Rightarrow>
          (case strip_prefix [CHR 0x27] (dropWhile is_space r) of
             None \<Rightarrow> None
           | Some r1 \<Rightarrow>
               (case strip_prefix ''ms_'' r1 of
                  None \<Rightarrow> None
                | Some r2 \<Rightarrow>
                    if takeWhile is_word r2 = [] then None
                    else (case strip_prefix [CHR 0x27] (dropWhile is_word r2) of
                            None \<Rightarrow> None
                          | Some _ \<Rightarrow> Some (''ms_'' @ takeWhile is_word r2)))))"

fun search_ms_id :: "string \<Rightarrow> string option" where
  "search_ms_id [] = None"
| "search_ms_id (c # cs) =
     (case match_ms_id (c # cs) of Some k \<Rightarrow> Some k | None \<Rightarrow> search_ms_id cs)"

text \<open>\<open>\{\s*type:\s*'(\w+)',\s*value:\s*(\d+\.?\d*)\<close> at the start of the text: group 1, the
  only group the loop reads.\<close>

definition match_reward :: "string \<Rightarrow> string option" where
  "match_reward s =
     (case strip_prefix ''{'' s of
        None \<Rightarrow> None
      | Some r \<Rightarrow>
          (case strip_prefix ''type:'' (dropWhile is_space r) of
             None \<Rightarrow> None
           | Some r1 \<Rightarrow>
               (case strip_prefix [CHR 0x27] (dropWhile is_space r1) of
                  None \<Rightarrow> None
                | Some r2 \<Rightarrow>
                    if takeWhile is_word r2 = [] then None
                    else (case strip_prefix [CHR 0x27, CHR '',''] (dropWhile is_word r2) of
                            None \<Rightarrow> None
                          | Some r3 \<Rightarrow>
                              (case strip_prefix ''value:'' (dropWhile is_space r3) of
                                 None \<Rightarrow> None
                               | Some r4 \<Rightarrow>
                                   (case match_unsigned (dropWhile is_space r4) of
                                      None \<Rightarrow> None
                                    | Some _ \<Rightarrow> Some (takeWhile is_word r2)))))))"

fun search_reward :: "string \<Rightarrow> string option" where
  "search_reward [] = None"
| "search_reward (c # cs) =
     (case match_reward (c # cs) of Some t \<Rightarrow> Some t | None \<Rightarrow> search_reward cs)"

text \<open>\<open>(type:\s*'<rtype>',\s*value:\s*)\d+\.?\d*\<close> at the start of the text: group 1, the
  literal and what follows.\<close>

definition match_value :: "string \<Rightarrow> string \<Rightarrow> (string \<times> string \<times> string) option" where
  "match_value rtype s =
     (case strip_prefix ''type:'' s of
        None \<Rightarrow> None
      | Some r \<Rightarrow>
          (case strip_prefix ([CHR 0x27] @ rtype @ [CHR 0x27, CHR '','']) (dropWhile is_space r) of
             None \<Rightarrow> None
           | Some r1 \<Rightarrow>
               (case strip_prefix ''value:'' (dropWhile is_space r1) of
                  None \<Rightarrow> None
                | Some r2 \<Rightarrow>
                    (case match_unsigned (dropWhile is_space r2) of
                       None \<Rightarrow> None
                     | Some (lit, rest) \<Rightarrow>
                         Some (''type:'' @ takeWhile is_space r @ [CHR 0x27] @ rtype @ [CHR 0x27, CHR '','']
                                 @ takeWhile is_space r1 @ ''value:'' @ takeWhile is_space r2,
                               lit, rest)))))"

text \<open>\<open>re.sub(rf"(type:\s*'{rtype}',\s*value:\s*)\d+\.?\d*", rf"\g<1>{ns}", s, count=1)\<close>.\<close>

fun sub_value :: "string \<Rightarrow> string \<Rightarrow> string \<Rightarrow> string" where
  "sub_value rtype ns [] = []"
| "sub_value rtype ns (c # cs) =
     (case match_value rtype (c # cs) of
        Some (g, lit, rest) \<Rightarrow> g @ ns @ rest
      | None \<Rightarrow> c # sub_value rtype ns cs)"

text \<open>The body of the milestone loop for index \<open>i\<close>, on the lines, the current milestone
  key \<open>cur_ms\<close> and the count \<open>mc\<close>.\<close>

definition milestone_line ::
  "nat \<Rightarrow> string list \<times> string option \<times> nat \<Rightarrow> string list \<times> string option \<times> nat" where
  "milestone_line i st =
     (let (lines, cur_ms, mc) = st;
          cur_ms = (case search_ms_id (lines ! i) of Some k \<Rightarrow> Some k | None \<Rightarrow> cur_ms)
      in case cur_ms of
           None \<Rightarrow> (lines, cur_ms, mc)
         | Some ms \<Rightarrow>
             (case search_reward (lines ! i) of
                None \<Rightarrow> (lines, cur_ms, mc)
              | Some rtype \<Rightarrow>
                  (case MILESTONE_REWARDS (ms, rtype) of
                     None \<Rightarrow> (lines, cur_ms, mc)
                   | Some nv \<Rightarrow>
                       (lines[i := sub_value rtype (fmt_milestone nv) (lines ! i)], cur_ms, mc + 1))))"

definition patch_milestones :: "string list \<Rightarrow> string list \<times> nat" where
  "patch_milestones lines =
     (let (lines, cur_ms, mc) = fold milestone_line [0 ..< length lines] (lines, None, 0)
      in (lines, mc))"

section \<open>Example documents\<close>

text \<open>A value occurrence on line 8 whose only row marker is on line 0, eight lines
  before it and so outside the scan window.\<close>

definition decoy_doc :: "string list" where
  "decoy_doc =
    [''  row: 17,\<newline>'',
     ''  {\<newline>'', ''    id: 'a',\<newline>'', ''    name: 'A',\<newline>'', ''    icon: 'x',\<newline>'',
     ''    cost: 1,\<newline>'', ''    tier: 2,\<newline>'', ''    effectDescription: '+5% XP',\<newline>'',
     ''    effects: [{ target: 'xpGain', multiplier: 0.05 }],\<newline>'']"

text \<open>The same occurrence with a second marker on line 1, seven lines before it.\<close>

definition window_doc :: "string list" where
  "window_doc = decoy_doc[1 := ''  row: 3,\<newline>'']"




text \<open>A line holding two effects written with the multiplier before the target, alone
  and followed by a further node under the same row marker.\<close>

definition twin_doc :: "string list" where
  "twin_doc =
    [''    row: 10,\<newline>'',
     ''    effects: [{ multiplier: 0.05, target: 'xpGain' }, { multiplier: 0.07, target: 'allIncome' }],\<newline>'']"

text \<open>The two-effect line with the second multiplier 0.0011 away from the curve value
  0.06 of the first target.\<close>

definition twin_far_doc :: "string list" where
  "twin_far_doc =
    [''    row: 10,\<newline>'',
     ''    effects: [{ multiplier: 0.05, target: 'xpGain' }, { multiplier: 0.0611, target: 'allIncome' }],\<newline>'']"

definition twin_doc2 :: "string list" where
  "twin_doc2 =
    [''    row: 10,\<newline>'',
     ''    effectDescription: '+5% XP',\<newline>'',
     ''    effects: [{ multiplier: 0.05, target: 'xpGain' }, { multiplier: 0.07, target: 'allIncome' }],\<newline>'',
     ''    bonus: { target: 'allIncome', multiplier: 0.5 },\<newline>'']"

text \<open>What a first and a second run make of those two documents.\<close>

definition twin_doc_once :: "string list" where
  "twin_doc_once =
    [''    row: 10,\<newline>'',
     ''    effects: [{ multiplier: 0.06, target: 'xpGain' }, { multiplier: 0.07, target: 'allIncome' }],\<newline>'']"

definition twin_doc2_once :: "string list" where
  "twin_doc2_once =
    [''    row: 10,\<newline>'',
     ''    effectDescription: '+2% XP',\<newline>'',
     ''    effects: [{ multiplier: 0.06, target: 'xpGain' }, { multiplier: 0.07, target: 'allIncome' }],\<newline>'',
     ''    bonus: { target: 'allIncome', multiplier: 0.02 },\<newline>'']"

definition twin_doc2_twice :: "string list" where
  "twin_doc2_twice =
    [''    row: 10,\<newline>'',
     ''    effectDescription: '+6% XP',\<newline>'',
     ''    effects: [{ multiplier: 0.06, target: 'xpGain' }, { multiplier: 0.07, target: 'allIncome' }],\<newline>'',
     ''    bonus: { target: 'allIncome', multiplier: 0.02 },\<newline>'']"


text \<open>The node of the specification's scenario: \<open>xpGain\<close> stored as 0.05 under row 10.\<close>

definition node_doc :: "string list" where
  "node_doc =
    [''    row: 10,\<newline>'',
     ''    effectDescription: '+5% XP',\<newline>'',
     ''    effects: [{ target: 'xpGain', multiplier: 0.05 }],\<newline>'']"

text \<open>A milestone with two rewards.\<close>

definition milestone_doc :: "string list" where
  "milestone_doc =
    [''  {\<newline>'',
     ''    id: 'ms_points_500',\<newline>'',
     ''    rewards: [\<newline>'',
     ''      { type: 'prestige_gain', value: 0.1 },\<newline>'',
     ''      { type: 'xp_gain', value: 0.05 },\<newline>'',
     ''    ],\<newline>'',
     ''  },\<newline>'']"

section \<open>Properties of the curve evaluator\<close>

lemma floor_rat_div_numeral [simp]:
  "\<lfloor>numeral a / numeral b :: rat\<rfloor> = numeral a div numeral b"
  by (metis floor_divide_of_int_eq of_int_numeral)
lemma floor_rat_minus_div_numeral [simp]:
  "\<lfloor>- (numeral a / numeral b) :: rat\<rfloor> = - numeral a div numeral b"
  by (metis divide_minus_left floor_divide_of_int_eq of_int_neg_numeral of_int_numeral)

lemma round_half_even_mono:
  assumes "x \<le> y"
  shows "round_half_even x \<le> round_half_even y"
proof -
  have fl: "\<lfloor>x\<rfloor> \<le> \<lfloor>y\<rfloor>" using assms by (rule floor_mono)
  show ?thesis
  proof (cases "\<lfloor>x\<rfloor> = \<lfloor>y\<rfloor>")
    case True
    with assms show ?thesis
      unfolding round_half_even_def Let_def by auto
  next
    case False
    with fl have lt: "\<lfloor>x\<rfloor> + 1 \<le> \<lfloor>y\<rfloor>" by simp
    have "round_half_even x \<le> \<lfloor>x\<rfloor> + 1"
      unfolding round_half_even_def Let_def by auto
    moreover have "\<lfloor>y\<rfloor> \<le> round_half_even y"
      unfolding round_half_even_def Let_def by auto
    ultimately show ?thesis using lt by linarith
  qed
qed


lemma py_round_mono: "x \<le> y \<Longrightarrow> py_round x n \<le> py_round y n"
  unfolding py_round_def
  by (intro divide_right_mono round_half_even_mono mult_right_mono iffD2[OF of_int_le_iff]) simp_all


lemma compute_mult_abs:
  assumes "CURVES target = Some (base, top_v)"
  shows "\<exists>a. compute_mult row target = Some a \<and>
     \<bar>a\<bar> = max (1/100) (py_round
        ((base + (top_v - base) * min (of_int row / 17) 1) *
         (if row \<in> {8, 12, 16} then 3/2 else if row = 17 then 2 else 1)) 2)"
  using assms by (simp add: compute_mult_def MAX_ROW_def Let_def max_def)

lemma CURVES_cases:
  assumes "CURVES target = Some (base, top_v)"
  shows "(target, base, top_v) \<in> set CURVES_items"
  using assms unfolding CURVES_def by (rule map_of_SomeD)

lemma CURVES_bounds:
  assumes "CURVES target = Some (base, top_v)"
  shows "1/100 \<le> base \<and> base \<le> top_v"
  using CURVES_cases [OF assms] unfolding CURVES_items_def by auto

text \<open>
  Claim C3. With the curve (0.01, 0.03), \<open>compute_mult(17, 'allIncome')\<close> is exactly 0.06:
  the interpolated magnitude is 0.03, the capstone factor 2.0 applies and the target is not
  negative. With the curve (0.02, 0.06), \<open>compute_mult(8, 'costReduction')\<close> is exactly
  -0.06: the interpolated magnitude is about 0.0388, the convergence factor 1.5 gives about
  0.0582, which rounds to 0.06 and is negated because the target is in the negative set.
\<close>

theorem compute_mult_scenarios:
  "CURVES ''allIncome'' = Some (1/100, 3/100)
   \<and> ''allIncome'' \<notin> NEGATIVE_TARGETS
   \<and> compute_mult 17 ''allIncome'' = Some (6/100)
   \<and> CURVES ''costReduction'' = Some (2/100, 6/100)
   \<and> ''costReduction'' \<in> NEGATIVE_TARGETS
   \<and> py_round ((2/100 + (6/100 - 2/100) * (8/17)) * (3/2)) 2 = 6/100
   \<and> compute_mult 8 ''costReduction'' = Some (- (6/100))"
  by (simp add: compute_mult_def CURVES_def CURVES_items_def NEGATIVE_TARGETS_def
      MAX_ROW_def py_round_def round_half_even_def Let_def)

text \<open>
  Claim C4. For a target with a configured curve, the magnitude of \<open>compute_mult\<close> is never
  below 0.01 at any row, and it does not decrease from a row that is not a checkpoint
  (8, 12, 16, 17) to any later row: the only places where the magnitude may go down are the
  steps that leave a checkpoint, where the one-time bonus ends.
\<close>

theorem compute_mult_monotone_floor:
  assumes "CURVES target = Some (base, top_v)"
  shows "\<exists>a b. compute_mult p target = Some a \<and> compute_mult q target = Some b
           \<and> 1/100 \<le> \<bar>a\<bar>
           \<and> (p \<le> q \<and> p \<notin> {8, 12, 16, 17} \<longrightarrow> \<bar>a\<bar> \<le> \<bar>b\<bar>)"
proof -
  define interp :: "int \<Rightarrow> rat"
    where "interp r = base + (top_v - base) * min (of_int r / 17) 1" for r
  define k :: "int \<Rightarrow> rat"
    where "k r = (if r \<in> {8, 12, 16} then 3/2 else if r = 17 then 2 else 1)" for r
  from compute_mult_abs [OF assms, of p] obtain a where
    a: "compute_mult p target = Some a" "\<bar>a\<bar> = max (1/100) (py_round (interp p * k p) 2)"
    unfolding interp_def k_def by blast
  from compute_mult_abs [OF assms, of q] obtain b where
    b: "compute_mult q target = Some b" "\<bar>b\<bar> = max (1/100) (py_round (interp q * k q) 2)"
    unfolding interp_def k_def by blast
  from CURVES_bounds [OF assms] have bt: "0 < base" "0 \<le> top_v - base" by simp_all
  have mono: "\<bar>a\<bar> \<le> \<bar>b\<bar>" if pq: "p \<le> q" and np: "p \<notin> {8, 12, 16, 17}"
  proof -
    have "min (rat_of_int p / 17) 1 \<le> min (rat_of_int q / 17) 1"
      using pq by (simp add: min_def)
    then have i: "interp p \<le> interp q"
      unfolding interp_def using bt(2) by (simp add: mult_left_mono)
    have kp: "k p = 1" using np by (simp add: k_def)
    have "interp q \<le> interp q * k q"
    proof (cases "k q = 1")
      case True then show ?thesis by simp
    next
      case False
      then have q8: "0 \<le> q" and kq: "1 \<le> k q" by (auto simp: k_def split: if_splits)
      have "0 \<le> min (rat_of_int q / 17) 1" using q8 by simp
      then have "0 \<le> interp q" unfolding interp_def using bt
        by (simp add: add_nonneg_nonneg)
      then show ?thesis using kq by (simp add: mult_le_cancel_left1)
    qed
    with i kp have "interp p * k p \<le> interp q * k q" by simp
    then have "py_round (interp p * k p) 2 \<le> py_round (interp q * k q) 2"
      by (rule py_round_mono)
    then show ?thesis using a(2) b(2) by (simp add: max_def)
  qed
  have "1/100 \<le> \<bar>a\<bar>" using a(2) by simp
  with a(1) b(1) mono show ?thesis by blast
qed

theorem compute_mult_monotone_floor_witness:
  "CURVES ''xpGain'' = Some (3/100, 8/100) \<and> (9::int) \<le> 12 \<and> (9::int) \<notin> {8, 12, 16, 17}
   \<and> (\<exists>a b. compute_mult 9 ''xpGain'' = Some a \<and> compute_mult 12 ''xpGain'' = Some b
           \<and> 1/100 \<le> \<bar>a\<bar> \<and> \<bar>a\<bar> \<le> \<bar>b\<bar>)"
proof -
  have c: "CURVES ''xpGain'' = Some (3/100, 8/100)"
    by (simp add: CURVES_def CURVES_items_def)
  show ?thesis using c compute_mult_monotone_floor [OF c, of 9 12] by simp
qed

lemma compute_mult_signed:
  assumes "CURVES target = Some (base, top_v)"
  shows "\<exists>mag. 1/100 \<le> mag \<and>
           compute_mult row target = Some (if target \<in> NEGATIVE_TARGETS then - mag else mag)"
proof -
  define m where "m = py_round
        ((base + (top_v - base) * min (of_int row / 17) 1) *
         (if row \<in> {8, 12, 16} then 3/2 else if row = 17 then 2 else 1)) 2"
  have "compute_mult row target =
      Some (if target \<in> NEGATIVE_TARGETS then - max (1/100) m else max (1/100) m)"
    using assms by (simp add: compute_mult_def MAX_ROW_def Let_def m_def)
  moreover have "1/100 \<le> max (1/100) m" by simp
  ultimately show ?thesis by blast
qed

text \<open>
  Claim C6. For every row, a target of the negative set (both have a curve) gets a
  non-positive multiplier, and every other target with a configured curve gets a
  non-negative one.
\<close>

theorem compute_mult_sign:
  "(target \<in> NEGATIVE_TARGETS \<longrightarrow> (\<exists>m. compute_mult row target = Some m \<and> m \<le> 0))
   \<and> (target \<in> dom CURVES \<and> target \<notin> NEGATIVE_TARGETS \<longrightarrow>
        (\<exists>m. compute_mult row target = Some m \<and> 0 \<le> m))"
proof -
  have neg: "target \<in> dom CURVES" if "target \<in> NEGATIVE_TARGETS"
    using that by (auto simp: NEGATIVE_TARGETS_def CURVES_def CURVES_items_def)
  have "\<exists>m. compute_mult row target = Some m \<and> (if target \<in> NEGATIVE_TARGETS then m \<le> 0 else 0 \<le> m)"
    if "target \<in> dom CURVES"
  proof -
    from that obtain base top_v where "CURVES target = Some (base, top_v)" by auto
    from compute_mult_signed [OF this, of row] obtain mag where
      "1/100 \<le> mag" "compute_mult row target = Some (if target \<in> NEGATIVE_TARGETS then - mag else mag)"
      by blast
    then show ?thesis by auto
  qed
  note main = this
  show ?thesis
  proof (intro conjI impI)
    assume n: "target \<in> NEGATIVE_TARGETS"
    with main [OF neg [OF n]] show "\<exists>m. compute_mult row target = Some m \<and> m \<le> 0" by simp
  next
    assume "target \<in> dom CURVES \<and> target \<notin> NEGATIVE_TARGETS"
    with main show "\<exists>m. compute_mult row target = Some m \<and> 0 \<le> m" by simp
  qed
qed

theorem compute_mult_sign_witness:
  "''loanRate'' \<in> NEGATIVE_TARGETS \<and> (\<exists>m. compute_mult 5 ''loanRate'' = Some m \<and> m \<le> 0)
   \<and> ''xpGain'' \<in> dom CURVES \<and> ''xpGain'' \<notin> NEGATIVE_TARGETS
   \<and> (\<exists>m. compute_mult 5 ''xpGain'' = Some m \<and> 0 \<le> m)"
  using compute_mult_sign [of "''loanRate''" 5] compute_mult_sign [of "''xpGain''" 5]
  by (simp add: NEGATIVE_TARGETS_def CURVES_def CURVES_items_def)

lemma CURVES_items_round:
  "\<forall>(t, b, tp) \<in> set CURVES_items. py_round tp 2 = tp \<and> py_round (tp * 2) 2 = tp * 2"
  by (simp add: CURVES_items_def py_round_def round_half_even_def Let_def)

lemma CURVES_top_round:
  assumes "CURVES target = Some (base, top_v)"
  shows "py_round top_v 2 = top_v \<and> py_round (top_v * 2) 2 = top_v * 2"
  using CURVES_cases [OF assms] CURVES_items_round by blast

text \<open>
  Claim C9. For a target with a configured curve and a row strictly above 17 the
  interpolation fraction is clamped to 1 and no checkpoint bonus applies: the result is the
  top endpoint of the curve (negated for a negative target), while row 17 itself gets twice
  the top endpoint, so the magnitude beyond row 17 is smaller than at row 17.
\<close>

theorem compute_mult_beyond_max_row:
  assumes "CURVES target = Some (base, top_v)" and "17 < row"
  shows "compute_mult row target = Some (if target \<in> NEGATIVE_TARGETS then - top_v else top_v)
       \<and> compute_mult row target = mult_with_factor 1 row target
       \<and> compute_mult 17 target = Some (if target \<in> NEGATIVE_TARGETS then - (top_v * 2) else top_v * 2)
       \<and> \<bar>if target \<in> NEGATIVE_TARGETS then - top_v else top_v\<bar>
           < \<bar>if target \<in> NEGATIVE_TARGETS then - (top_v * 2) else top_v * 2\<bar>"
proof -
  from CURVES_bounds [OF assms(1)] have pos: "1/100 \<le> top_v" by simp
  have t1: "min (rat_of_int row / 17) 1 = 1" using assms(2) by (simp add: min_def)
  have r: "row \<notin> {8, 12, 16}" "row \<noteq> 17" using assms(2) by auto
  from CURVES_top_round [OF assms(1)] have rd: "py_round top_v 2 = top_v" "py_round (top_v * 2) 2 = top_v * 2"
    by simp_all
  have 1: "compute_mult row target = Some (if target \<in> NEGATIVE_TARGETS then - top_v else top_v)"
    using assms(1) r pos by (simp add: compute_mult_def MAX_ROW_def Let_def t1 rd max_def)
  have 2: "mult_with_factor 1 row target = Some (if target \<in> NEGATIVE_TARGETS then - top_v else top_v)"
    using assms(1) pos by (simp add: mult_with_factor_def MAX_ROW_def Let_def t1 rd max_def)
  have 3: "compute_mult 17 target = Some (if target \<in> NEGATIVE_TARGETS then - (top_v * 2) else top_v * 2)"
    using assms(1) pos by (simp add: compute_mult_def MAX_ROW_def Let_def rd max_def)
  have 4: "\<bar>if target \<in> NEGATIVE_TARGETS then - top_v else top_v\<bar>
           < \<bar>if target \<in> NEGATIVE_TARGETS then - (top_v * 2) else top_v * 2\<bar>"
    using pos by auto
  have 5: "compute_mult row target = mult_with_factor 1 row target"
    unfolding 1 2 ..
  from 1 5 3 4 show ?thesis by (intro conjI)
qed

theorem compute_mult_beyond_max_row_witness:
  "CURVES ''depositRate'' = Some (5/100, 12/100) \<and> (17::int) < 18
   \<and> compute_mult 18 ''depositRate'' = Some (12/100)
   \<and> compute_mult 17 ''depositRate'' = Some (24/100)"
proof -
  have c: "CURVES ''depositRate'' = Some (5/100, 12/100)"
    by (simp add: CURVES_def CURVES_items_def)
  have n: "''depositRate'' \<notin> NEGATIVE_TARGETS" by (simp add: NEGATIVE_TARGETS_def)
  have "compute_mult 18 ''depositRate'' = Some (12/100) \<and> compute_mult 17 ''depositRate'' = Some (24/100)"
    using compute_mult_beyond_max_row [OF c, of 18] by (simp add: n)
  with c show ?thesis by simp
qed

lemma mult_with_factor_eq:
  assumes "CURVES target = Some (base, top_v)"
  shows "mult_with_factor k row target =
     Some (if target \<in> NEGATIVE_TARGETS then - curve_magnitude k base top_v row
           else curve_magnitude k base top_v row)"
  using assms by (simp add: mult_with_factor_def curve_magnitude_def Let_def)

lemma mult_with_factor_neq:
  assumes "CURVES target = Some (base, top_v)"
    and "curve_magnitude k base top_v row \<noteq> curve_magnitude k' base top_v row"
  shows "mult_with_factor k row target \<noteq> mult_with_factor k' row target"
  using assms(2) unfolding mult_with_factor_eq [OF assms(1)] by simp

lemma CURVES_items_distinct:
  "\<forall>(t, b, tp) \<in> set CURVES_items. \<forall>row \<in> {8, 12, 16, 17}.
      curve_magnitude 2 b tp row \<noteq> curve_magnitude (3/2) b tp row
    \<and> curve_magnitude 2 b tp row \<noteq> curve_magnitude (2 * (3/2)) b tp row
    \<and> curve_magnitude (3/2) b tp row \<noteq> curve_magnitude (2 * (3/2)) b tp row"
  apply (simp add: CURVES_items_def)
  apply (simp add: curve_magnitude_def MAX_ROW_def py_round_def round_half_even_def Let_def)
  done

lemma compute_mult_eq_factor:
  assumes "CURVES target = Some (base, top_v)"
  shows "compute_mult row target =
     mult_with_factor (if row \<in> {8, 12, 16} then 3/2 else if row = 17 then 2 else 1) row target"
  using assms by (simp add: compute_mult_def mult_with_factor_def Let_def)

lemma checkpoint_factors_distinct:
  assumes "CURVES target = Some (base, top_v)" and "row \<in> {8, 12, 16, 17}"
  shows "mult_with_factor 2 row target \<noteq> mult_with_factor (3/2) row target"
    and "mult_with_factor 2 row target \<noteq> mult_with_factor (2 * (3/2)) row target"
    and "mult_with_factor (3/2) row target \<noteq> mult_with_factor (2 * (3/2)) row target"
proof -
  from bspec [OF CURVES_items_distinct CURVES_cases [OF assms(1)]]
  have "\<forall>row \<in> {8, 12, 16, 17}.
      curve_magnitude 2 base top_v row \<noteq> curve_magnitude (3/2) base top_v row
    \<and> curve_magnitude 2 base top_v row \<noteq> curve_magnitude (2 * (3/2)) base top_v row
    \<and> curve_magnitude (3/2) base top_v row \<noteq> curve_magnitude (2 * (3/2)) base top_v row"
    by (simp only: prod.case)
  from bspec [OF this assms(2)] have
    d1: "curve_magnitude 2 base top_v row \<noteq> curve_magnitude (3/2) base top_v row" and
    d2: "curve_magnitude 2 base top_v row \<noteq> curve_magnitude (2 * (3/2)) base top_v row" and
    d3: "curve_magnitude (3/2) base top_v row \<noteq> curve_magnitude (2 * (3/2)) base top_v row"
    by blast+
  show "mult_with_factor 2 row target \<noteq> mult_with_factor (3/2) row target"
    by (rule mult_with_factor_neq [OF assms(1) d1])
  show "mult_with_factor 2 row target \<noteq> mult_with_factor (2 * (3/2)) row target"
    by (rule mult_with_factor_neq [OF assms(1) d2])
  show "mult_with_factor (3/2) row target \<noteq> mult_with_factor (2 * (3/2)) row target"
    by (rule mult_with_factor_neq [OF assms(1) d3])
qed

text \<open>
  Claim C5. For a target with a configured curve, row 17 gets the capstone factor 2 alone:
  the result is the one computed with factor 2 and differs from the ones computed with
  factor 1.5 and with both factors (3). Rows 8, 12 and 16 get the convergence factor 1.5
  alone: the result differs from the ones computed with factor 2 and with both factors.
  Every other row gets no factor. So the two bonuses are never applied together.
\<close>

theorem checkpoint_precedence:
  assumes "CURVES target = Some (base, top_v)"
  shows "compute_mult 17 target = mult_with_factor 2 17 target
       \<and> compute_mult 17 target \<noteq> mult_with_factor (3/2) 17 target
       \<and> compute_mult 17 target \<noteq> mult_with_factor (2 * (3/2)) 17 target
       \<and> (\<forall>row \<in> {8, 12, 16}.
             compute_mult row target = mult_with_factor (3/2) row target
           \<and> compute_mult row target \<noteq> mult_with_factor 2 row target
           \<and> compute_mult row target \<noteq> mult_with_factor (2 * (3/2)) row target)
       \<and> (\<forall>row. row \<notin> {8, 12, 16, 17} \<longrightarrow>
             compute_mult row target = mult_with_factor 1 row target)"
proof -
  have a: "compute_mult 17 target = mult_with_factor 2 17 target"
    by (simp add: compute_mult_eq_factor [OF assms])
  have b: "compute_mult row target = mult_with_factor (3/2) row target"
    if "row \<in> {8, 12, 16}" for row
    using that by (simp add: compute_mult_eq_factor [OF assms])
  have c: "compute_mult row target = mult_with_factor 1 row target"
    if "row \<notin> {8, 12, 16, 17}" for row
    using that by (simp add: compute_mult_eq_factor [OF assms])
  have m17: "(17::int) \<in> {8, 12, 16, 17}" by simp
  have a1: "compute_mult 17 target \<noteq> mult_with_factor (3/2) 17 target"
    unfolding a by (rule checkpoint_factors_distinct(1) [OF assms m17])
  have a2: "compute_mult 17 target \<noteq> mult_with_factor (2 * (3/2)) 17 target"
    unfolding a by (rule checkpoint_factors_distinct(2) [OF assms m17])
  have rows: "compute_mult row target = mult_with_factor (3/2) row target
           \<and> compute_mult row target \<noteq> mult_with_factor 2 row target
           \<and> compute_mult row target \<noteq> mult_with_factor (2 * (3/2)) row target"
    if r: "row \<in> {8, 12, 16}" for row
  proof -
    from r have r': "row \<in> {8, 12, 16, 17}" by blast
    have "mult_with_factor (3/2) row target \<noteq> mult_with_factor 2 row target"
      using checkpoint_factors_distinct(1) [OF assms r'] by (rule not_sym)
    moreover note checkpoint_factors_distinct(3) [OF assms r']
    ultimately show ?thesis unfolding b [OF r] by blast
  qed
  from a a1 a2 rows c show ?thesis by blast
qed

theorem checkpoint_precedence_witness:
  "CURVES ''allIncome'' = Some (1/100, 3/100)
   \<and> compute_mult 17 ''allIncome'' = mult_with_factor 2 17 ''allIncome''
   \<and> compute_mult 17 ''allIncome'' \<noteq> mult_with_factor (3/2) 17 ''allIncome''
   \<and> (8::int) \<in> {8, 12, 16}
   \<and> compute_mult 8 ''allIncome'' = mult_with_factor (3/2) 8 ''allIncome''
   \<and> (5::int) \<notin> {8, 12, 16, 17}
   \<and> compute_mult 5 ''allIncome'' = mult_with_factor 1 5 ''allIncome''"
proof -
  have c: "CURVES ''allIncome'' = Some (1/100, 3/100)"
    by (simp add: CURVES_def CURVES_items_def)
  note t = checkpoint_precedence [OF c]
  have 8: "(8::int) \<in> {8, 12, 16}" and 5: "(5::int) \<notin> {8, 12, 16, 17}" by simp_all
  from t have t1: "compute_mult 17 ''allIncome'' = mult_with_factor 2 17 ''allIncome''"
    and t2: "compute_mult 17 ''allIncome'' \<noteq> mult_with_factor (3/2) 17 ''allIncome''"
    by blast+
  from t 8 have t3: "compute_mult 8 ''allIncome'' = mult_with_factor (3/2) 8 ''allIncome''"
    by blast
  from t 5 have t4: "compute_mult 5 ''allIncome'' = mult_with_factor 1 5 ''allIncome''"
    by blast
  from c t1 t2 8 t3 5 t4 show ?thesis by (intro conjI)
qed

section \<open>Properties of the patcher\<close>

lemma length_patch_description [simp]:
  "length (patch_description repl lines js) = length lines"
  by (induction js) simp_all

lemma length_process_line [simp]:
  "length (fst (process_line i st)) = length (fst st)"
  by (cases st) (simp add: process_line_def Let_def split: option.splits prod.splits)

lemma length_fold_process_line:
  "length (fst (fold process_line is st)) = length (fst st)"
  by (induction "is" arbitrary: st) simp_all

lemma patch_description_nth_other:
  "k \<notin> set js \<Longrightarrow> patch_description repl lines js ! k = lines ! k"
  by (induction js) auto


lemma first_row_cong:
  "(\<forall>j \<in> set js. A ! j = B ! j) \<Longrightarrow> first_row A js = first_row B js"
  by (induction js) (simp_all split: option.splits)

lemma first_row_None:
  "(\<forall>j \<in> set js. search_row (lines ! j) = None) \<Longrightarrow> first_row lines js = None"
  by (induction js) simp_all

lemma first_row_Some:
  "first_row lines js = Some r \<Longrightarrow>
     \<exists>pre j post ds. js = pre @ j # post \<and> (\<forall>k \<in> set pre. search_row (lines ! k) = None)
        \<and> search_row (lines ! j) = Some ds \<and> r = parse_nat ds"
proof (induction js)
  case Nil
  then show ?case by simp
next
  case (Cons j js)
  show ?case
  proof (cases "search_row (lines ! j)")
    case None
    with Cons.prems have "first_row lines js = Some r" by simp
    from Cons.IH [OF this] obtain pre j' post ds where
      h: "js = pre @ j' # post" "\<forall>k \<in> set pre. search_row (lines ! k) = None"
         "search_row (lines ! j') = Some ds" "r = parse_nat ds" by blast
    from h None have "j # js = (j # pre) @ j' # post \<and> (\<forall>k \<in> set (j # pre). search_row (lines ! k) = None)
        \<and> search_row (lines ! j') = Some ds \<and> r = parse_nat ds" by simp
    then show ?thesis by blast
  next
    case (Some ds)
    with Cons.prems have "j # js = [] @ j # js \<and> (\<forall>k \<in> set []. search_row (lines ! k) = None)
        \<and> search_row (lines ! j) = Some ds \<and> r = parse_nat ds" by simp
    then show ?thesis by blast
  qed
qed


lemma upt_split:
  assumes "[a ..< i] = xs @ j # ys"
  shows "xs = [a ..< j] \<and> ys = [Suc j ..< i] \<and> a \<le> j \<and> j < i"
proof -
  have "length [a ..< i] = length (xs @ j # ys)" using assms by simp
  then have len: "length xs < i - a" by simp
  have "[a ..< i] ! length xs = j" unfolding assms by simp
  then have j: "j = a + length xs" using len by simp
  have "take (length xs) [a ..< i] = xs" unfolding assms by simp
  then have xs: "xs = [a ..< j]" using len j by (simp add: take_upt)
  have "drop (Suc (length xs)) [a ..< i] = ys" unfolding assms by simp
  then have ys: "ys = [Suc j ..< i]" using j by (simp add: drop_upt add.commute)
  from xs ys j len show ?thesis by simp
qed

lemma rev_upt_split:
  assumes "rev [a ..< i] = pre @ j # post"
  shows "a \<le> j \<and> j < i \<and> set pre = {k. j < k \<and> k < i} \<and> set post = {k. a \<le> k \<and> k < j}"
proof -
  from assms have "[a ..< i] = rev post @ j # rev pre"
    by (simp add: rev_eq_append_conv)
  from upt_split [OF this] have "rev post = [a ..< j]" "rev pre = [Suc j ..< i]" "a \<le> j" "j < i"
    by simp_all
  moreover from this(1) have "set post = set [a ..< j]" by (metis set_rev)
  moreover from \<open>rev pre = [Suc j ..< i]\<close> have "set pre = set [Suc j ..< i]" by (metis set_rev)
  ultimately show ?thesis by auto
qed

lemma find_row_cong:
  assumes "\<forall>j. i - 7 \<le> j \<and> j < i \<longrightarrow> A ! j = B ! j"
  shows "find_row A i = find_row B i"
  unfolding find_row_def using assms by (intro first_row_cong) simp

lemma find_row_Some:
  assumes "find_row lines i = Some r"
  shows "\<exists>j ds. i - 7 \<le> j \<and> j < i \<and> search_row (lines ! j) = Some ds \<and> r = parse_nat ds
           \<and> (\<forall>k. j < k \<and> k < i \<longrightarrow> search_row (lines ! k) = None)"
proof -
  from first_row_Some [OF assms [unfolded find_row_def]] obtain pre j post ds where
    h: "rev [i - 7 ..< i] = pre @ j # post" "\<forall>k \<in> set pre. search_row (lines ! k) = None"
       "search_row (lines ! j) = Some ds" "r = parse_nat ds" by blast
  from rev_upt_split [OF h(1)] have "i - 7 \<le> j" "j < i" "set pre = {k. j < k \<and> k < i}" by simp_all
  with h show ?thesis by blast
qed

lemma find_row_None:
  assumes "\<forall>j. i - 7 \<le> j \<and> j < i \<longrightarrow> search_row (lines ! j) = None"
  shows "find_row lines i = None"
  unfolding find_row_def using assms by (intro first_row_None) simp

lemma process_line_no_row:
  assumes "find_row lines i = None"
  shows "process_line i (lines, n) = (lines, n)"
  using assms by (simp add: process_line_def Let_def split: option.splits)

text \<open>
  Claim C7. The row marker used for the occurrence on line \<open>i\<close> depends only on the lines
  \<open>i - 7\<close> to \<open>i - 1\<close>: two documents that agree on that window give the same result, so a
  marker eight or more lines before the occurrence is never picked up. When a marker is
  found it is the nearest one in the window. When no line of the window carries a marker,
  the occurrence is skipped: the lines and the count stay as they are, and the step has no
  failing case.
\<close>

theorem scan_window:
  "((\<forall>j. i - 7 \<le> j \<and> j < i \<longrightarrow> A ! j = B ! j) \<longrightarrow> find_row A i = find_row B i)
   \<and> (find_row lines i = Some r \<longrightarrow>
        (\<exists>j ds. i - 7 \<le> j \<and> j < i \<and> search_row (lines ! j) = Some ds \<and> r = parse_nat ds
           \<and> (\<forall>k. j < k \<and> k < i \<longrightarrow> search_row (lines ! k) = None)))
   \<and> ((\<forall>j. i - 7 \<le> j \<and> j < i \<longrightarrow> search_row (lines ! j) = None) \<longrightarrow>
        find_row lines i = None \<and> process_line i (lines, n) = (lines, n))"
  using find_row_cong [of i A B] find_row_Some [of lines i r] find_row_None [of i lines]
    process_line_no_row [of lines i n]
  by blast

lemma strip_prefix_Some: "strip_prefix p s = Some r \<Longrightarrow> s = p @ r"
  by (induction p s rule: strip_prefix.induct) (auto split: if_splits)

lemma opt_char_eq:
  assumes "opt_char x s = (a, r)"
  shows "s = a @ r \<and> (a = [] \<or> a = [x])"
  using assms by (auto simp: opt_char_def split: list.splits if_splits)

lemma match_number_Some:
  assumes "match_number s = Some (lit, rest)"
  shows "s = lit @ rest \<and>
         (\<exists>sg ds dot fs. lit = sg @ ds @ dot @ fs \<and> (sg = [] \<or> sg = ''-'') \<and> ds \<noteq> []
            \<and> (\<forall>c \<in> set ds. is_digit c) \<and> (dot = [] \<or> dot = ''.'') \<and> (\<forall>c \<in> set fs. is_digit c))"
proof -
  obtain sg s1 where sg: "opt_char (CHR ''-'') s = (sg, s1)" by force
  obtain dot s3 where dot: "opt_char (CHR ''.'') (dropWhile is_digit s1) = (dot, s3)" by force
  define ds where "ds = takeWhile is_digit s1"
  define fs where "fs = takeWhile is_digit s3"
  have m: "match_number s = (if ds = [] then None else Some (sg @ ds @ dot @ fs, dropWhile is_digit s3))"
    by (simp add: match_number_def Let_def sg dot ds_def fs_def)
  with assms have ne: "ds \<noteq> []" and lit: "lit = sg @ ds @ dot @ fs"
    and rest: "rest = dropWhile is_digit s3"
    by (auto split: if_splits)
  from opt_char_eq [OF sg] have s: "s = sg @ s1" and sg': "sg = [] \<or> sg = ''-''" by simp_all
  from opt_char_eq [OF dot] have s2: "dropWhile is_digit s1 = dot @ s3" and dot': "dot = [] \<or> dot = ''.''"
    by simp_all
  have "ds @ dot @ s3 = s1" unfolding ds_def s2 [symmetric] by simp
  moreover have "fs @ rest = s3" unfolding fs_def rest by simp
  ultimately have "lit @ rest = s" unfolding lit s by simp
  moreover have "\<forall>c \<in> set ds. is_digit c" unfolding ds_def by (auto dest: set_takeWhileD)
  moreover have "\<forall>c \<in> set fs. is_digit c" unfolding fs_def by (auto dest: set_takeWhileD)
  ultimately show ?thesis using lit sg' dot' ne by blast
qed

lemma match_multiplier_Some:
  assumes "match_multiplier s = Some (g, lit, rest)"
  shows "s = g @ lit @ rest \<and> match_number (lit @ rest) = Some (lit, rest)
         \<and> (\<exists>ws. g = ''multiplier:'' @ ws \<and> (\<forall>c \<in> set ws. is_space c))"
proof -
  from assms obtain r where r: "strip_prefix ''multiplier:'' s = Some r"
    and n: "match_number (dropWhile is_space r) = Some (lit, rest)"
    and g: "g = ''multiplier:'' @ takeWhile is_space r"
    by (auto simp: match_multiplier_def split: option.splits)
  from match_number_Some [OF n] have d: "dropWhile is_space r = lit @ rest" by simp
  have "g @ lit @ rest = ''multiplier:'' @ (takeWhile is_space r @ dropWhile is_space r)"
    unfolding g d by simp
  also have "\<dots> = s" using strip_prefix_Some [OF r] by simp
  finally have 1: "s = g @ lit @ rest" by simp
  have 2: "match_number (lit @ rest) = Some (lit, rest)" using n unfolding d .
  have 3: "\<forall>c \<in> set (takeWhile is_space r). is_space c" by (auto dest: set_takeWhileD)
  from 1 2 3 g show ?thesis by blast
qed

lemma match_multiplier_Nil [simp]: "match_multiplier [] = None"
  by (simp add: match_multiplier_def)

lemma sub_multiplier_first:
  "sub_multiplier repl s =
     (case first_multiplier s of None \<Rightarrow> s | Some (pre, g, lit, rest) \<Rightarrow> pre @ g @ repl @ rest)"
  by (induction s) (simp_all split: option.splits)

lemma first_multiplier_Some:
  "first_multiplier s = Some (pre, g, lit, rest) \<Longrightarrow>
     s = pre @ g @ lit @ rest \<and> match_multiplier (g @ lit @ rest) = Some (g, lit, rest)
     \<and> (\<forall>p q. pre = p @ q \<and> q \<noteq> [] \<longrightarrow> match_multiplier (q @ g @ lit @ rest) = None)"
proof (induction s arbitrary: pre)
  case Nil
  then show ?case by simp
next
  case (Cons c cs)
  show ?case
  proof (cases "match_multiplier (c # cs)")
    case (Some t)
    with Cons.prems have m: "match_multiplier (c # cs) = Some (g, lit, rest)" and p: "pre = []"
      by (auto split: prod.splits)
    from match_multiplier_Some [OF m] have e: "c # cs = g @ lit @ rest" by simp
    have "match_multiplier (g @ lit @ rest) = Some (g, lit, rest)" using m unfolding e .
    with e p show ?thesis by simp
  next
    case None
    with Cons.prems obtain pre' where f: "first_multiplier cs = Some (pre', g, lit, rest)"
      and p: "pre = c # pre'"
      by (auto split: option.splits)
    from Cons.IH [OF f] have ih: "cs = pre' @ g @ lit @ rest"
      "match_multiplier (g @ lit @ rest) = Some (g, lit, rest)"
      "\<forall>p q. pre' = p @ q \<and> q \<noteq> [] \<longrightarrow> match_multiplier (q @ g @ lit @ rest) = None"
      by simp_all
    have "\<forall>p q. pre = p @ q \<and> q \<noteq> [] \<longrightarrow> match_multiplier (q @ g @ lit @ rest) = None"
    proof (intro allI impI)
      fix p' q assume a: "pre = p' @ q \<and> q \<noteq> []"
      show "match_multiplier (q @ g @ lit @ rest) = None"
      proof (cases p')
        case Nil
        with a p have "q = c # pre'" by simp
        then have "q @ g @ lit @ rest = c # cs" using ih(1) by simp
        then show ?thesis using None by simp
      next
        case (Cons x xs)
        with a p have "pre' = xs @ q \<and> q \<noteq> []" by simp
        with ih(3) show ?thesis by blast
      qed
    qed
    moreover have "c # cs = pre @ g @ lit @ rest" using ih(1) p by simp
    ultimately show ?thesis using ih(2) by simp
  qed
qed

lemma first_multiplier_None:
  "first_multiplier s = None \<Longrightarrow> s = p @ q \<Longrightarrow> match_multiplier q = None"
proof (induction s arbitrary: p)
  case Nil
  then show ?case by simp
next
  case (Cons c cs)
  from Cons.prems(1) have m: "match_multiplier (c # cs) = None" and f: "first_multiplier cs = None"
    by (auto split: option.splits)
  show ?case
  proof (cases p)
    case Nil
    with Cons.prems(2) m show ?thesis by simp
  next
    case (Cons x xs)
    with Cons.prems(2) have "cs = xs @ q" by simp
    from Cons.IH [OF f this] show ?thesis .
  qed
qed

lemma find_multiplier_place:
  "find_multiplier s = Some lit \<Longrightarrow>
     \<exists>p g rest. s = p @ g @ lit @ rest \<and> match_multiplier (g @ lit @ rest) = Some (g, lit, rest)"
proof (induction s)
  case Nil
  then show ?case by simp
next
  case (Cons c cs)
  show ?case
  proof (cases "match_multiplier (c # cs)")
    case None
    with Cons.prems have "find_multiplier cs = Some lit" by (simp split: if_splits)
    from Cons.IH [OF this] obtain p g rest where h: "cs = p @ g @ lit @ rest"
      "match_multiplier (g @ lit @ rest) = Some (g, lit, rest)" by blast
    have "c # cs = (c # p) @ g @ lit @ rest" using h(1) by simp
    with h(2) show ?thesis by blast
  next
    case (Some t)
    with Cons.prems obtain g rest where m: "match_multiplier (c # cs) = Some (g, lit, rest)"
      by (cases t) auto
    from match_multiplier_Some [OF m] have e: "c # cs = g @ lit @ rest" by simp
    have 1: "c # cs = [] @ g @ lit @ rest" using e by simp
    have 2: "match_multiplier (g @ lit @ rest) = Some (g, lit, rest)" using m unfolding e .
    from 1 2 show ?thesis by blast
  qed
qed

lemma match_target_place:
  assumes "match_target s = Some (target, lit)"
  shows "\<exists>p g rest. s = p @ g @ lit @ rest \<and> match_multiplier (g @ lit @ rest) = Some (g, lit, rest)"
proof (cases "strip_prefix ''target:'' s")
  case None
  show ?thesis using assms by (simp add: match_target_def None)
next
  case (Some r)
  note r = this
  show ?thesis
  proof (cases "dropWhile is_space r")
    case Nil
    show ?thesis using assms by (simp add: match_target_def r Nil)
  next
    case (Cons q r1)
    note q = this
    show ?thesis
    proof (cases "dropWhile is_word r1")
      case Nil
      show ?thesis using assms by (simp add: match_target_def r q Nil split: if_splits)
    next
      case (Cons q' r2)
      note q' = this
      show ?thesis
      proof (cases "find_multiplier r2")
        case None
        show ?thesis using assms by (simp add: match_target_def r q q' None split: if_splits)
      next
        case (Some l)
        have l: "l = lit" using assms by (simp add: match_target_def r q q' Some split: if_splits)
        from find_multiplier_place [OF Some [unfolded l]] obtain p g rest where
          h: "r2 = p @ g @ lit @ rest" "match_multiplier (g @ lit @ rest) = Some (g, lit, rest)" by blast
        have "(''target:'' @ takeWhile is_space r @ q # takeWhile is_word r1 @ q' # p) @ g @ lit @ rest
            = ''target:'' @ takeWhile is_space r @ q # (takeWhile is_word r1 @ dropWhile is_word r1)"
          unfolding q' h(1) by simp
        also have "\<dots> = ''target:'' @ (takeWhile is_space r @ dropWhile is_space r)"
          unfolding q by simp
        also have "\<dots> = s" using strip_prefix_Some [OF r] by simp
        finally have "s = (''target:'' @ takeWhile is_space r @ q # takeWhile is_word r1 @ q' # p) @ g @ lit @ rest"
          by (rule sym)
        with h(2) show ?thesis by blast
      qed
    qed
  qed
qed

lemma search_target_place:
  "search_target s = Some (target, lit) \<Longrightarrow>
     \<exists>p g rest. s = p @ g @ lit @ rest \<and> match_multiplier (g @ lit @ rest) = Some (g, lit, rest)"
proof (induction s)
  case Nil
  then show ?case by simp
next
  case (Cons c cs)
  show ?case
  proof (cases "match_target (c # cs)")
    case None
    with Cons.prems have "search_target cs = Some (target, lit)" by simp
    from Cons.IH [OF this] obtain p g rest where h: "cs = p @ g @ lit @ rest"
      "match_multiplier (g @ lit @ rest) = Some (g, lit, rest)" by blast
    have "c # cs = (c # p) @ g @ lit @ rest" using h(1) by simp
    with h(2) show ?thesis by blast
  next
    case (Some t)
    with Cons.prems have "match_target (c # cs) = Some (target, lit)" by simp
    from match_target_place [OF this] show ?thesis .
  qed
qed

lemma only_match:
  assumes f: "first_multiplier s = Some (pre, g, old, post)"
    and h: "first_multiplier (tl (g @ old @ post)) = None"
  shows "\<forall>p q. s = p @ q \<and> match_multiplier q \<noteq> None \<longrightarrow> p = pre"
proof (intro allI impI)
  fix p q assume a: "s = p @ q \<and> match_multiplier q \<noteq> None"
  from first_multiplier_Some [OF f] have e: "s = pre @ g @ old @ post"
    and first: "\<forall>p q. pre = p @ q \<and> q \<noteq> [] \<longrightarrow> match_multiplier (q @ g @ old @ post) = None"
    by simp_all
  define X where "X = g @ old @ post"
  from a e have "pre @ X = p @ q" unfolding X_def by simp
  then obtain us where "(pre = p @ us \<and> us @ X = q) \<or> (pre @ us = p \<and> X = us @ q)"
    unfolding append_eq_append_conv2 by blast
  then show "p = pre"
  proof
    assume c: "pre = p @ us \<and> us @ X = q"
    show ?thesis
    proof (cases "us = []")
      case True
      with c show ?thesis by simp
    next
      case False
      with c first have "match_multiplier (us @ g @ old @ post) = None" by blast
      with c a show ?thesis unfolding X_def by simp
    qed
  next
    assume c: "pre @ us = p \<and> X = us @ q"
    show ?thesis
    proof (cases us)
      case Nil
      with c show ?thesis by simp
    next
      case (Cons u us')
      with c have "tl X = us' @ q" by simp
      from first_multiplier_None [OF h [folded X_def] this] a show ?thesis by simp
    qed
  qed
qed

lemma occurrence_rewrite:
  assumes "search_target s = Some (target, lit)"
  shows "\<exists>pre ws old post.
           first_multiplier s = Some (pre, ''multiplier:'' @ ws, old, post)
         \<and> s = pre @ ''multiplier:'' @ ws @ old @ post
         \<and> (\<forall>c \<in> set ws. is_space c)
         \<and> match_number (old @ post) = Some (old, post)
         \<and> sub_multiplier repl s = pre @ ''multiplier:'' @ ws @ repl @ post
         \<and> (first_multiplier (tl (''multiplier:'' @ ws @ old @ post)) = None \<longrightarrow> old = lit)"
proof -
  from search_target_place [OF assms] obtain p0 g0 rest0 where
    e0: "s = p0 @ g0 @ lit @ rest0" and m0: "match_multiplier (g0 @ lit @ rest0) = Some (g0, lit, rest0)"
    by (elim exE conjE)
  have "first_multiplier s \<noteq> None"
  proof
    assume "first_multiplier s = None"
    from first_multiplier_None [OF this e0] have "match_multiplier (g0 @ lit @ rest0) = None" .
    then show False unfolding m0 by simp
  qed
  then obtain pre g old post where f: "first_multiplier s = Some (pre, g, old, post)"
    by (cases "first_multiplier s") auto
  from first_multiplier_Some [OF f] have e: "s = pre @ g @ old @ post"
    and m: "match_multiplier (g @ old @ post) = Some (g, old, post)" by simp_all
  from match_multiplier_Some [OF m] obtain ws where
    w: "g = ''multiplier:'' @ ws" "\<forall>c \<in> set ws. is_space c"
    and n: "match_number (old @ post) = Some (old, post)"
    by (elim exE conjE)
  have 0: "first_multiplier s = Some (pre, ''multiplier:'' @ ws, old, post)" using f unfolding w(1) .
  have 1: "s = pre @ ''multiplier:'' @ ws @ old @ post" using e unfolding w(1) append_assoc .
  have "sub_multiplier repl s = pre @ g @ repl @ post" unfolding sub_multiplier_first f by simp
  then have 2: "sub_multiplier repl s = pre @ ''multiplier:'' @ ws @ repl @ post"
    unfolding w(1) append_assoc .
  have 3: "first_multiplier (tl (''multiplier:'' @ ws @ old @ post)) = None \<longrightarrow> old = lit"
  proof
    assume "first_multiplier (tl (''multiplier:'' @ ws @ old @ post)) = None"
    then have "first_multiplier (tl (g @ old @ post)) = None" unfolding w(1) append_assoc .
    from only_match [OF f this]
    have u: "\<forall>p q. s = p @ q \<and> match_multiplier q \<noteq> None \<longrightarrow> p = pre" .
    have mne: "match_multiplier (g0 @ lit @ rest0) \<noteq> None" unfolding m0 by simp
    have pp: "p0 = pre" by (rule u [rule_format, OF conjI [OF e0 mne]])
    have "pre @ g @ old @ post = p0 @ g0 @ lit @ rest0" by (rule trans [OF e [symmetric] e0])
    then have "g @ old @ post = g0 @ lit @ rest0" unfolding pp by (rule same_append_eq [THEN iffD1])
    then have "Some (g, old, post) = Some (g0, lit, rest0)" using m m0 by (simp only:)
    then show "old = lit" by simp
  qed
  show ?thesis
    apply (rule exI [of _ pre])
    apply (rule exI [of _ ws])
    apply (rule exI [of _ old])
    apply (rule exI [of _ post])
    using 0 1 2 3 w(2) n apply (intro conjI)
         apply assumption+
    done
qed












text \<open>At a decimal difference of exactly 0.001 the floats can still pass the test: the
  floats of 0.03 and 0.029 differ by less than the float of 0.001.\<close>

lemma float_test_at_threshold:
  "\<bar>3/100 - parse_float ''0.029''\<bar> = 1/1000 \<and> within_tolerance (3/100) (py_float ''0.029'')"
proof -
  have v: "parse_float ''0.029'' = 29/1000"
    by (simp add: parse_float_def parse_nat_def digit_val_def is_digit_def Let_def)
  have "within_tolerance (3/100) (to_double (29/1000))" by code_simp
  then show ?thesis unfolding py_float_def v by simp
qed

lemma process_line_unfold:
  "process_line i (lines, n) =
     (case search_target (lines ! i) of
        None \<Rightarrow> (lines, n)
      | Some (target, lit) \<Rightarrow>
          (case find_row lines i of
             None \<Rightarrow> (lines, n)
           | Some row \<Rightarrow>
               (case compute_mult (int row) target of
                  None \<Rightarrow> (lines, n)
                | Some new_mult \<Rightarrow>
                    if within_tolerance new_mult (py_float lit) then (lines, n)
                    else (patch_description ((if new_mult \<ge> 0 then ''+'' else ''-'') @ fmt_pct new_mult)
                            (lines[i := sub_multiplier (fmt_fixed 2 new_mult) (lines ! i)])
                            (rev [i - 4 ..< i]),
                          n + 1))))"
  by (simp add: process_line_def Let_def split: option.splits prod.splits)


lemma process_line_rewrite:
  assumes "search_target (lines ! i) = Some (target, lit)" and "find_row lines i = Some row"
    and "compute_mult (int row) target = Some new_mult"
    and "\<not> within_tolerance new_mult (py_float lit)"
  shows "process_line i (lines, n) =
      (patch_description ((if new_mult \<ge> 0 then ''+'' else ''-'') @ fmt_pct new_mult)
         (lines[i := sub_multiplier (fmt_fixed 2 new_mult) (lines ! i)]) (rev [i - 4 ..< i]),
       n + 1)"
  unfolding process_line_unfold using assms by simp

lemma patch_description_nth_self:
  assumes "i < length lines"
  shows "patch_description repl (lines[i := x]) (rev [i - 4 ..< i]) ! i = x"
proof -
  have "i \<notin> set (rev [i - 4 ..< i])" by simp
  from patch_description_nth_other [OF this] show ?thesis using assms by simp
qed


text \<open>On a line with two effects the literal compared and the literal rewritten can be two
  different ones: here the occurrence of \<open>xpGain\<close> is compared through the literal 0.0611,
  the first literal 0.05 is the one rewritten, and the compared literal stays.\<close>

lemma twin_line_rewrites_first_literal:
  "search_target (twin_far_doc ! 1) = Some (''xpGain'', ''0.0611'')
   \<and> process_line 1 (twin_far_doc, 0)
       = ([''    row: 10,\<newline>'',
           ''    effects: [{ multiplier: 0.06, target: 'xpGain' }, { multiplier: 0.0611, target: 'allIncome' }],\<newline>''],
          1)"
  by code_simp



theorem scan_window_witness:
  "search_row (decoy_doc ! 0) = Some ''17''
   \<and> find_row decoy_doc 8 = None
   \<and> process_line 8 (decoy_doc, 0) = (decoy_doc, 0)
   \<and> find_row window_doc 8 = Some 3
   \<and> find_row (window_doc[0 := ''  row: 5,'']) 8 = find_row window_doc 8
   \<and> (\<exists>j ds. 8 - 7 \<le> j \<and> j < 8 \<and> search_row (window_doc ! j) = Some ds \<and> 3 = parse_nat ds)"
proof -
  have d0: "search_row (decoy_doc ! 0) = Some ''17''" by code_simp
  have "\<forall>j \<in> set [1 ..< 8]. search_row (decoy_doc ! j) = None" by code_simp
  then have none: "\<forall>j. 8 - 7 \<le> j \<and> j < 8 \<longrightarrow> search_row (decoy_doc ! j) = None" by simp
  have w: "find_row window_doc 8 = Some 3" by code_simp
  have agree: "\<forall>j. 8 - 7 \<le> j \<and> j < 8 \<longrightarrow> (window_doc[0 := ''  row: 5,'']) ! j = window_doc ! j"
    by simp
  note t1 = scan_window [where i = 8 and lines = decoy_doc and n = 0,
      THEN conjunct2, THEN conjunct2, THEN mp, OF none]
  note t2 = scan_window [where i = 8 and A = "window_doc[0 := ''  row: 5,'']" and B = window_doc,
      THEN conjunct1, THEN mp, OF agree]
  note t3 = scan_window [where i = 8 and lines = window_doc and r = 3,
      THEN conjunct2, THEN conjunct1, THEN mp, OF w]
  from t3 have e: "\<exists>j ds. 8 - 7 \<le> j \<and> j < 8 \<and> search_row (window_doc ! j) = Some ds \<and> 3 = parse_nat ds"
    by blast
  from d0 t1 [THEN conjunct1] t1 [THEN conjunct2] w t2 e show ?thesis by (intro conjI)
qed






lemma is_digit_digit_char:
  assumes "k < 10"
  shows "is_digit (digit_char k)"
proof -
  have "\<forall>k \<in> set [0 ..< 10]. is_digit (digit_char k)" by code_simp
  with assms show ?thesis by simp
qed

lemma not_is_digit_point: "\<not> is_digit (CHR ''.'')"
  by code_simp

lemma length_fixed_digits: "length (fixed_digits d n) = d"
  by (simp add: fixed_digits_def)

lemma fixed_digits_are_digits: "c \<in> set (fixed_digits d n) \<Longrightarrow> is_digit c"
  by (auto simp: fixed_digits_def intro: is_digit_digit_char)

lemma fmt_fixed_eq:
  "fmt_fixed d v =
     (if v < 0 then ''-'' else []) @ str_nat (nat (round_half_even (\<bar>v\<bar> * 10 ^ d)) div 10 ^ d)
       @ ''.'' @ fixed_digits d (nat (round_half_even (\<bar>v\<bar> * 10 ^ d)))"
  by (simp add: fmt_fixed_def Let_def)

lemma fmt_fixed_two_decimals:
  "\<exists>ip d1 d2. fmt_fixed 2 v = (if v < 0 then ''-'' else []) @ str_nat ip @ [CHR ''.'', d1, d2]
      \<and> is_digit d1 \<and> is_digit d2"
proof -
  define n where "n = nat (round_half_even (\<bar>v\<bar> * 10 ^ 2))"
  have "length (fixed_digits 2 n) = Suc (Suc 0)" by (simp add: length_fixed_digits)
  then obtain d1 d2 where f: "fixed_digits 2 n = [d1, d2]"
    by (auto simp: length_Suc_conv)
  have "d1 \<in> set (fixed_digits 2 n)" "d2 \<in> set (fixed_digits 2 n)" unfolding f by simp_all
  then have d: "is_digit d1" "is_digit d2" by (auto dest: fixed_digits_are_digits)
  have "fmt_fixed 2 v = (if v < 0 then ''-'' else []) @ str_nat (n div 10 ^ 2) @ [CHR ''.'', d1, d2]"
    unfolding fmt_fixed_eq n_def [symmetric] f by simp
  with d show ?thesis by blast
qed

lemma rstrip_zero_decimals:
  assumes "\<forall>c \<in> set fd. is_digit c"
  shows "\<exists>ds. (let ns = rstrip_zero (x @ ''.'' @ fd)
               in if ns \<noteq> [] \<and> last ns = CHR ''.'' then ns @ ''0'' else ns) = x @ ''.'' @ ds
           \<and> ds \<noteq> [] \<and> length ds \<le> max 1 (length fd) \<and> (\<forall>c \<in> set ds. is_digit c)
           \<and> (ds = ''0'' \<or> last ds \<noteq> CHR ''0'')"
proof -
  define P where "P = (\<lambda>c. c = CHR ''0'')"
  have np: "\<not> P (CHR ''.'')" by (simp add: P_def)
  have r: "rstrip_zero (x @ ''.'' @ fd) = rev (dropWhile P (rev fd @ CHR ''.'' # rev x))"
    by (simp add: rstrip_zero_def P_def)
  show ?thesis
  proof (cases "\<forall>c \<in> set fd. P c")
    case True
    then have "dropWhile P (rev fd @ CHR ''.'' # rev x) = CHR ''.'' # rev x"
      using np by (simp add: dropWhile_append)
    then have ns: "rstrip_zero (x @ ''.'' @ fd) = x @ ''.''" unfolding r by simp
    have z: "is_digit (CHR ''0'')" by code_simp
    have "(let ns = rstrip_zero (x @ ''.'' @ fd)
               in if ns \<noteq> [] \<and> last ns = CHR ''.'' then ns @ ''0'' else ns) = x @ ''.'' @ ''0''"
      unfolding ns by simp
    then show ?thesis using z by (intro exI [of _ "''0''"]) simp
  next
    case False
    define ds where "ds = rev (dropWhile P (rev fd))"
    from False have ne: "dropWhile P (rev fd) \<noteq> []" by (simp add: dropWhile_eq_Nil_conv)
    from False obtain c where "c \<in> set (rev fd)" "\<not> P c" by auto
    then have "dropWhile P (rev fd @ CHR ''.'' # rev x) = dropWhile P (rev fd) @ CHR ''.'' # rev x"
      by (rule dropWhile_append1)
    then have ns: "rstrip_zero (x @ ''.'' @ fd) = x @ ''.'' @ ds" unfolding r ds_def by simp
    have dne: "ds \<noteq> []" using ne by (simp add: ds_def)
    have sub: "set ds \<subseteq> set fd" unfolding ds_def using set_dropWhileD [of _ P "rev fd"] by auto
    then have dig: "\<forall>c \<in> set ds. is_digit c" using assms by blast
    have "last ds = hd (dropWhile P (rev fd))" unfolding ds_def using ne by (simp add: last_rev)
    moreover have "\<not> P (hd (dropWhile P (rev fd)))" using ne by (rule hd_dropWhile)
    ultimately have l0: "last ds \<noteq> CHR ''0''" by (simp add: P_def)
    have "last ds \<in> set ds" using dne by simp
    with dig have "is_digit (last ds)" by blast
    then have lp: "last ds \<noteq> CHR ''.''" using not_is_digit_point by metis
    have len: "length ds \<le> length fd" unfolding ds_def by (simp add: length_dropWhile_le [of P "rev fd", simplified])
    have "(let ns = rstrip_zero (x @ ''.'' @ fd)
               in if ns \<noteq> [] \<and> last ns = CHR ''.'' then ns @ ''0'' else ns) = x @ ''.'' @ ds"
      unfolding ns using dne lp by simp
    with dne dig l0 len show ?thesis by (intro exI [of _ ds]) simp
  qed
qed

lemma fmt_milestone_shape:
  "\<exists>ip ds. fmt_milestone nv = (if nv < 0 then ''-'' else []) @ str_nat ip @ ''.'' @ ds
      \<and> ds \<noteq> [] \<and> length ds \<le> 4 \<and> (\<forall>c \<in> set ds. is_digit c)
      \<and> (ds = ''0'' \<or> last ds \<noteq> CHR ''0'')"
proof -
  define n where "n = nat (round_half_even (\<bar>nv\<bar> * 10 ^ 4))"
  define x where "x = (if nv < 0 then ''-'' else []) @ str_nat (n div 10 ^ 4)"
  have f: "fmt_fixed 4 nv = x @ ''.'' @ fixed_digits 4 n"
    unfolding fmt_fixed_eq n_def [symmetric] x_def by simp
  have "\<forall>c \<in> set (fixed_digits 4 n). is_digit c" by (auto dest: fixed_digits_are_digits)
  from rstrip_zero_decimals [OF this, of x] obtain ds where
    d: "fmt_milestone nv = x @ ''.'' @ ds" "ds \<noteq> []" "length ds \<le> max 1 (length (fixed_digits 4 n))"
      "\<forall>c \<in> set ds. is_digit c" "ds = ''0'' \<or> last ds \<noteq> CHR ''0''"
    unfolding fmt_milestone_def f by blast
  from d(3) have "length ds \<le> 4" by (simp add: length_fixed_digits)
  with d show ?thesis unfolding x_def by (intro exI [of _ "n div 10 ^ 4"] exI [of _ ds]) simp
qed

lemma strip_prefix_append: "strip_prefix p (p @ r) = Some r"
  by (induction p) simp_all

lemma match_unsigned_Some:
  assumes "match_unsigned s = Some (lit, rest)"
  shows "s = lit @ rest \<and>
         (\<exists>ds dot fs. lit = ds @ dot @ fs \<and> ds \<noteq> [] \<and> (\<forall>c \<in> set ds. is_digit c)
            \<and> (dot = [] \<or> dot = ''.'') \<and> (\<forall>c \<in> set fs. is_digit c))"
proof -
  obtain dot s3 where dot: "opt_char (CHR ''.'') (dropWhile is_digit s) = (dot, s3)" by force
  define ds where "ds = takeWhile is_digit s"
  define fs where "fs = takeWhile is_digit s3"
  have m: "match_unsigned s = (if ds = [] then None else Some (ds @ dot @ fs, dropWhile is_digit s3))"
    by (simp add: match_unsigned_def Let_def dot ds_def fs_def)
  with assms have ne: "ds \<noteq> []" and lit: "lit = ds @ dot @ fs"
    and rest: "rest = dropWhile is_digit s3"
    by (auto split: if_splits)
  from opt_char_eq [OF dot] have s2: "dropWhile is_digit s = dot @ s3" and dot': "dot = [] \<or> dot = ''.''"
    by simp_all
  have "ds @ dot @ s3 = s" unfolding ds_def s2 [symmetric] by simp
  moreover have "fs @ rest = s3" unfolding fs_def rest by simp
  ultimately have "lit @ rest = s" unfolding lit by simp
  moreover have "\<forall>c \<in> set ds. is_digit c" unfolding ds_def by (auto dest: set_takeWhileD)
  moreover have "\<forall>c \<in> set fs. is_digit c" unfolding fs_def by (auto dest: set_takeWhileD)
  ultimately show ?thesis using lit dot' ne by blast
qed

lemma match_value_Some:
  assumes "match_value rtype s = Some (g, lit, rest)"
  shows "s = g @ lit @ rest \<and> match_unsigned (lit @ rest) = Some (lit, rest)"
proof -
  from assms obtain r r1 r2 where r: "strip_prefix ''type:'' s = Some r"
    and r1: "strip_prefix ([CHR 0x27] @ rtype @ [CHR 0x27, CHR '','']) (dropWhile is_space r) = Some r1"
    and r2: "strip_prefix ''value:'' (dropWhile is_space r1) = Some r2"
    and n: "match_unsigned (dropWhile is_space r2) = Some (lit, rest)"
    and g: "g = ''type:'' @ takeWhile is_space r @ [CHR 0x27] @ rtype @ [CHR 0x27, CHR '','']
                 @ takeWhile is_space r1 @ ''value:'' @ takeWhile is_space r2"
    by (auto simp: match_value_def split: option.splits)
  from match_unsigned_Some [OF n] have d2: "dropWhile is_space r2 = lit @ rest" by simp
  have e2: "takeWhile is_space r2 @ lit @ rest = r2" unfolding d2 [symmetric] by simp
  have e1: "takeWhile is_space r1 @ ''value:'' @ r2 = r1"
    using strip_prefix_Some [OF r2] by (metis takeWhile_dropWhile_id)
  have e0: "takeWhile is_space r @ ([CHR 0x27] @ rtype @ [CHR 0x27, CHR '','']) @ r1 = r"
    using strip_prefix_Some [OF r1] by (metis takeWhile_dropWhile_id)
  have "g @ lit @ rest = ''type:'' @ takeWhile is_space r @ ([CHR 0x27] @ rtype @ [CHR 0x27, CHR '',''])
         @ takeWhile is_space r1 @ ''value:'' @ (takeWhile is_space r2 @ lit @ rest)"
    unfolding g by simp
  also have "\<dots> = ''type:'' @ takeWhile is_space r @ ([CHR 0x27] @ rtype @ [CHR 0x27, CHR '',''])
         @ (takeWhile is_space r1 @ ''value:'' @ r2)"
    unfolding e2 by simp
  also have "\<dots> = ''type:'' @ (takeWhile is_space r @ ([CHR 0x27] @ rtype @ [CHR 0x27, CHR '','']) @ r1)"
    unfolding e1 by simp
  also have "\<dots> = s" unfolding e0 using strip_prefix_Some [OF r] by simp
  finally have 1: "s = g @ lit @ rest" by (rule sym)
  have 2: "match_unsigned (lit @ rest) = Some (lit, rest)" using n unfolding d2 .
  from 1 2 show ?thesis by (rule conjI)
qed

lemma match_value_Nil [simp]: "match_value rtype [] = None"
  by (simp add: match_value_def)

lemma sub_value_cases:
  "(sub_value rtype ns s = s \<and> (\<forall>pre post. s = pre @ post \<longrightarrow> match_value rtype post = None))
   \<or> (\<exists>pre g lit rest. s = pre @ g @ lit @ rest \<and> match_value rtype (g @ lit @ rest) = Some (g, lit, rest)
         \<and> sub_value rtype ns s = pre @ g @ ns @ rest)"
proof (induction s)
  case Nil
  then show ?case by simp
next
  case (Cons c cs)
  show ?case
  proof (cases "match_value rtype (c # cs)")
    case (Some t)
    then obtain g lit rest where t: "match_value rtype (c # cs) = Some (g, lit, rest)"
      by (cases t) auto
    from match_value_Some [OF t] have e: "c # cs = g @ lit @ rest" by simp
    have 1: "sub_value rtype ns (c # cs) = [] @ g @ ns @ rest" using t by simp
    have 2: "c # cs = [] @ g @ lit @ rest" using e by simp
    have 3: "match_value rtype (g @ lit @ rest) = Some (g, lit, rest)" using t unfolding e .
    from 1 2 3 show ?thesis by blast
  next
    case None
    from Cons.IH show ?thesis
    proof
      assume a: "sub_value rtype ns cs = cs \<and> (\<forall>pre post. cs = pre @ post \<longrightarrow> match_value rtype post = None)"
      have "\<forall>pre post. c # cs = pre @ post \<longrightarrow> match_value rtype post = None"
      proof (intro allI impI)
        fix pre post assume "c # cs = pre @ post"
        then show "match_value rtype post = None"
          using a None by (cases pre) auto
      qed
      moreover have "sub_value rtype ns (c # cs) = c # cs" using a None by simp
      ultimately show ?thesis by blast
    next
      assume "\<exists>pre g lit rest. cs = pre @ g @ lit @ rest \<and> match_value rtype (g @ lit @ rest) = Some (g, lit, rest)
         \<and> sub_value rtype ns cs = pre @ g @ ns @ rest"
      then obtain pre g lit rest where h: "cs = pre @ g @ lit @ rest"
        "match_value rtype (g @ lit @ rest) = Some (g, lit, rest)"
        "sub_value rtype ns cs = pre @ g @ ns @ rest" by blast
      have 1: "c # cs = (c # pre) @ g @ lit @ rest" using h(1) by simp
      have 2: "sub_value rtype ns (c # cs) = (c # pre) @ g @ ns @ rest"
        using None h(3) by simp
      from 1 2 h(2) show ?thesis by blast
    qed
  qed
qed

lemma match_reward_value:
  assumes "match_reward s = Some rtype"
  shows "\<exists>pre post. s = pre @ post \<and> match_value rtype post \<noteq> None"
proof -
  from assms obtain r r1 r2 r3 r4 n where r: "strip_prefix ''{'' s = Some r"
    and r1: "strip_prefix ''type:'' (dropWhile is_space r) = Some r1"
    and r2: "strip_prefix [CHR 0x27] (dropWhile is_space r1) = Some r2"
    and r3: "strip_prefix [CHR 0x27, CHR '',''] (dropWhile is_word r2) = Some r3"
    and r4: "strip_prefix ''value:'' (dropWhile is_space r3) = Some r4"
    and n: "match_unsigned (dropWhile is_space r4) = Some n"
    and t: "rtype = takeWhile is_word r2"
    by (auto simp: match_reward_def split: option.splits if_splits)
  have "takeWhile is_word r2 @ dropWhile is_word r2 = r2" by simp
  then have e2: "r2 = rtype @ [CHR 0x27, CHR '',''] @ r3"
    unfolding strip_prefix_Some [OF r3] t by simp
  have d1: "dropWhile is_space r1 = ([CHR 0x27] @ rtype @ [CHR 0x27, CHR '','']) @ r3"
    unfolding strip_prefix_Some [OF r2] e2 by simp
  have v: "match_value rtype (''type:'' @ r1) \<noteq> None"
    unfolding match_value_def strip_prefix_append option.case d1 r4 n by (cases n) simp
  have "takeWhile is_space r @ dropWhile is_space r = r" by simp
  then have "r = takeWhile is_space r @ ''type:'' @ r1"
    unfolding strip_prefix_Some [OF r1] by simp
  then have "s = (''{'' @ takeWhile is_space r) @ (''type:'' @ r1)"
    using strip_prefix_Some [OF r] by simp
  with v show ?thesis by blast
qed

lemma search_reward_value:
  "search_reward s = Some rtype \<Longrightarrow> \<exists>pre post. s = pre @ post \<and> match_value rtype post \<noteq> None"
proof (induction s)
  case Nil
  then show ?case by simp
next
  case (Cons c cs)
  show ?case
  proof (cases "match_reward (c # cs)")
    case None
    with Cons.prems have "search_reward cs = Some rtype" by simp
    from Cons.IH [OF this] obtain pre post where p: "cs = pre @ post" "match_value rtype post \<noteq> None"
      by blast
    have "c # cs = (c # pre) @ post" using p(1) by simp
    with p(2) show ?thesis by blast
  next
    case (Some t)
    with Cons.prems have "match_reward (c # cs) = Some rtype" by simp
    from match_reward_value [OF this] show ?thesis .
  qed
qed

lemma sub_value_of_reward:
  assumes "search_reward s = Some rtype"
  shows "\<exists>pre g old post. s = pre @ g @ old @ post
           \<and> match_value rtype (g @ old @ post) = Some (g, old, post)
           \<and> sub_value rtype ns s = pre @ g @ ns @ post"
proof -
  from search_reward_value [OF assms] obtain pre0 post0 where
    e: "s = pre0 @ post0" and m: "match_value rtype post0 \<noteq> None" by (elim exE conjE)
  from sub_value_cases [of rtype ns s] show ?thesis
  proof
    assume "sub_value rtype ns s = s \<and> (\<forall>pre post. s = pre @ post \<longrightarrow> match_value rtype post = None)"
    then have "\<forall>pre post. s = pre @ post \<longrightarrow> match_value rtype post = None" by (rule conjunct2)
    then have "s = pre0 @ post0 \<longrightarrow> match_value rtype post0 = None" by (elim allE)
    with e m show ?thesis by simp
  next
    assume "\<exists>pre g lit rest. s = pre @ g @ lit @ rest \<and> match_value rtype (g @ lit @ rest) = Some (g, lit, rest)
         \<and> sub_value rtype ns s = pre @ g @ ns @ rest"
    then show ?thesis .
  qed
qed

lemma milestone_line_unfold:
  "milestone_line i (lines, cur_ms, mc) =
     (case (case search_ms_id (lines ! i) of Some k \<Rightarrow> Some k | None \<Rightarrow> cur_ms) of
        None \<Rightarrow> (lines, None, mc)
      | Some ms \<Rightarrow>
          (case search_reward (lines ! i) of
             None \<Rightarrow> (lines, Some ms, mc)
           | Some rtype \<Rightarrow>
               (case MILESTONE_REWARDS (ms, rtype) of
                  None \<Rightarrow> (lines, Some ms, mc)
                | Some nv \<Rightarrow>
                    (lines[i := sub_value rtype (fmt_milestone nv) (lines ! i)], Some ms, mc + 1))))"
  by (simp add: milestone_line_def Let_def split: option.splits)

lemma length_milestone_line [simp]:
  "length (fst (milestone_line i st)) = length (fst st)"
  by (cases st) (simp add: milestone_line_unfold split: option.splits)

lemma length_fold_milestone_line:
  "length (fst (fold milestone_line is st)) = length (fst st)"
  by (induction "is" arbitrary: st) simp_all

lemma length_patch_milestones: "length (fst (patch_milestones lines)) = length lines"
proof -
  have "fst (patch_milestones lines) = fst (fold milestone_line [0 ..< length lines] (lines, None, 0))"
    by (simp add: patch_milestones_def split: prod.splits)
  then show ?thesis by (simp add: length_fold_milestone_line)
qed

lemma length_process_skill_file: "length (fst (process_skill_file lines)) = length lines"
  by (simp add: process_skill_file_def length_fold_process_line)

lemma milestone_line_written:
  assumes "i < length lines"
    and "(case search_ms_id (lines ! i) of Some k \<Rightarrow> Some k | None \<Rightarrow> cur_ms) = Some ms"
    and "search_reward (lines ! i) = Some rtype"
    and "MILESTONE_REWARDS (ms, rtype) = Some nv"
  shows "\<exists>pre g old post. lines ! i = pre @ g @ old @ post
           \<and> match_value rtype (g @ old @ post) = Some (g, old, post)
           \<and> milestone_line i (lines, cur_ms, mc)
               = (lines[i := pre @ g @ fmt_milestone nv @ post], Some ms, mc + 1)"
proof -
  from sub_value_of_reward [OF assms(3), of "fmt_milestone nv"] obtain pre g old post where
    h: "lines ! i = pre @ g @ old @ post" "match_value rtype (g @ old @ post) = Some (g, old, post)"
       "sub_value rtype (fmt_milestone nv) (lines ! i) = pre @ g @ fmt_milestone nv @ post"
    by (elim exE conjE)
  have "milestone_line i (lines, cur_ms, mc)
      = (lines[i := sub_value rtype (fmt_milestone nv) (lines ! i)], Some ms, mc + 1)"
    unfolding milestone_line_unfold by (simp add: assms(2) assms(3) assms(4))
  then have "milestone_line i (lines, cur_ms, mc)
               = (lines[i := pre @ g @ fmt_milestone nv @ post], Some ms, mc + 1)"
    unfolding h(3) .
  with h(1,2) show ?thesis by (intro exI conjI)
qed

text \<open>
  Claim C8. The skill-file patcher returns as many lines as it was given. When it rewrites
  the occurrence on line \<open>i\<close>, that line keeps all its text except the first number that
  follows \<open>multiplier:\<close> and optional white space, which is replaced by the computed value
  written with exactly two decimals; that number is the stored literal of the occurrence
  whenever no further \<open>multiplier:\<close> number follows it on the line. The milestone patcher also keeps the number of lines; when it
  rewrites a reward, the line keeps all its text except the number after the reward's
  \<open>type: ..., value:\<close> prefix, which is replaced by the table value written with at most
  four decimals, trailing zeros removed and at least one decimal kept.
\<close>

theorem rewrite_locality:
  "length (fst (process_skill_file lines)) = length lines
   \<and> (i < length lines \<and> search_target (lines ! i) = Some (target, lit)
        \<and> find_row lines i = Some row \<and> compute_mult (int row) target = Some new_mult
        \<and> \<not> within_tolerance new_mult (py_float lit) \<longrightarrow>
        (\<exists>pre ws old post.
            first_multiplier (lines ! i) = Some (pre, ''multiplier:'' @ ws, old, post)
          \<and> lines ! i = pre @ ''multiplier:'' @ ws @ old @ post
          \<and> (\<forall>c \<in> set ws. is_space c)
          \<and> match_number (old @ post) = Some (old, post)
          \<and> fst (process_line i (lines, n)) ! i
              = pre @ ''multiplier:'' @ ws @ fmt_fixed 2 new_mult @ post
          \<and> (first_multiplier (tl (''multiplier:'' @ ws @ old @ post)) = None \<longrightarrow> old = lit)))
   \<and> (\<exists>ip d1 d2. fmt_fixed 2 v = (if v < 0 then ''-'' else []) @ str_nat ip @ [CHR ''.'', d1, d2]
          \<and> is_digit d1 \<and> is_digit d2)
   \<and> length (fst (patch_milestones lines)) = length lines
   \<and> (i < length lines
        \<and> (case search_ms_id (lines ! i) of Some k \<Rightarrow> Some k | None \<Rightarrow> cur_ms) = Some ms
        \<and> search_reward (lines ! i) = Some rtype \<and> MILESTONE_REWARDS (ms, rtype) = Some nv \<longrightarrow>
        (\<exists>pre g old post.
            lines ! i = pre @ g @ old @ post
          \<and> match_value rtype (g @ old @ post) = Some (g, old, post)
          \<and> milestone_line i (lines, cur_ms, mc)
              = (lines[i := pre @ g @ fmt_milestone nv @ post], Some ms, mc + 1)))
   \<and> (\<exists>ip ds. fmt_milestone nv = (if nv < 0 then ''-'' else []) @ str_nat ip @ ''.'' @ ds
          \<and> ds \<noteq> [] \<and> length ds \<le> 4 \<and> (\<forall>c \<in> set ds. is_digit c)
          \<and> (ds = ''0'' \<or> last ds \<noteq> CHR ''0''))"
proof (intro conjI impI)
  show "length (fst (process_skill_file lines)) = length lines"
    by (rule length_process_skill_file)
  show "length (fst (patch_milestones lines)) = length lines"
    by (rule length_patch_milestones)
  show "\<exists>ip d1 d2. fmt_fixed 2 v = (if v < 0 then ''-'' else []) @ str_nat ip @ [CHR ''.'', d1, d2]
          \<and> is_digit d1 \<and> is_digit d2"
    by (rule fmt_fixed_two_decimals)
  show "\<exists>ip ds. fmt_milestone nv = (if nv < 0 then ''-'' else []) @ str_nat ip @ ''.'' @ ds
          \<and> ds \<noteq> [] \<and> length ds \<le> 4 \<and> (\<forall>c \<in> set ds. is_digit c)
          \<and> (ds = ''0'' \<or> last ds \<noteq> CHR ''0'')"
    by (rule fmt_milestone_shape)
next
  assume a: "i < length lines \<and> search_target (lines ! i) = Some (target, lit)
        \<and> find_row lines i = Some row \<and> compute_mult (int row) target = Some new_mult
        \<and> \<not> within_tolerance new_mult (py_float lit)"
  then have a1: "i < length lines" and a2: "search_target (lines ! i) = Some (target, lit)"
    and a3: "find_row lines i = Some row" and a4: "compute_mult (int row) target = Some new_mult"
    and a5: "\<not> within_tolerance new_mult (py_float lit)" by simp_all
  have e: "fst (process_line i (lines, n)) ! i = sub_multiplier (fmt_fixed 2 new_mult) (lines ! i)"
    unfolding process_line_rewrite [OF a2 a3 a4 a5] fst_conv
    by (rule patch_description_nth_self [OF a1])
  from occurrence_rewrite [OF a2, of "fmt_fixed 2 new_mult"]
  show "\<exists>pre ws old post.
            first_multiplier (lines ! i) = Some (pre, ''multiplier:'' @ ws, old, post)
          \<and> lines ! i = pre @ ''multiplier:'' @ ws @ old @ post
          \<and> (\<forall>c \<in> set ws. is_space c)
          \<and> match_number (old @ post) = Some (old, post)
          \<and> fst (process_line i (lines, n)) ! i
              = pre @ ''multiplier:'' @ ws @ fmt_fixed 2 new_mult @ post
          \<and> (first_multiplier (tl (''multiplier:'' @ ws @ old @ post)) = None \<longrightarrow> old = lit)"
    unfolding e .
next
  assume b: "i < length lines
        \<and> (case search_ms_id (lines ! i) of Some k \<Rightarrow> Some k | None \<Rightarrow> cur_ms) = Some ms
        \<and> search_reward (lines ! i) = Some rtype \<and> MILESTONE_REWARDS (ms, rtype) = Some nv"
  then have b1: "i < length lines"
    and b2: "(case search_ms_id (lines ! i) of Some k \<Rightarrow> Some k | None \<Rightarrow> cur_ms) = Some ms"
    and b3: "search_reward (lines ! i) = Some rtype" and b4: "MILESTONE_REWARDS (ms, rtype) = Some nv"
    by simp_all
  show "\<exists>pre g old post.
            lines ! i = pre @ g @ old @ post
          \<and> match_value rtype (g @ old @ post) = Some (g, old, post)
          \<and> milestone_line i (lines, cur_ms, mc)
              = (lines[i := pre @ g @ fmt_milestone nv @ post], Some ms, mc + 1)"
    by (rule milestone_line_written [OF b1 b2 b3 b4])
qed


theorem rewrite_locality_witness:
  "2 < length node_doc
   \<and> search_target (node_doc ! 2) = Some (''xpGain'', ''0.05'')
   \<and> find_row node_doc 2 = Some 10
   \<and> compute_mult (int 10) ''xpGain'' = Some (6/100)
   \<and> \<not> within_tolerance (6/100) (py_float ''0.05'')
   \<and> fmt_fixed 2 (6/100) = ''0.06''
   \<and> first_multiplier (node_doc ! 2)
        = Some (''    effects: [{ target: 'xpGain', '', ''multiplier: '', ''0.05'', '' }],\<newline>'')
   \<and> first_multiplier (tl (''multiplier:'' @ '' '' @ ''0.05'' @ '' }],\<newline>'')) = None
   \<and> fst (process_line 2 (node_doc, 0)) ! 2
        = ''    effects: [{ target: 'xpGain', multiplier: 0.06 }],\<newline>''
   \<and> 3 < length milestone_doc
   \<and> (case search_ms_id (milestone_doc ! 3) of Some k \<Rightarrow> Some k | None \<Rightarrow> Some ''ms_points_500'')
        = Some ''ms_points_500''
   \<and> search_reward (milestone_doc ! 3) = Some ''prestige_gain''
   \<and> MILESTONE_REWARDS (''ms_points_500'', ''prestige_gain'') = Some (25/1000)
   \<and> (\<exists>pre g old post.
          milestone_doc ! 3 = pre @ g @ old @ post
        \<and> milestone_line 3 (milestone_doc, Some ''ms_points_500'', 0)
            = (milestone_doc[3 := pre @ g @ fmt_milestone (25/1000) @ post], Some ''ms_points_500'', 0 + 1))
   \<and> fmt_milestone (25/1000) = ''0.025''"
proof -
  have a1: "2 < length node_doc" by (simp add: node_doc_def)
  have a2: "search_target (node_doc ! 2) = Some (''xpGain'', ''0.05'')" by code_simp
  have a3: "find_row node_doc 2 = Some 10" by code_simp
  have a4: "compute_mult (int 10) ''xpGain'' = Some (6/100)" by code_simp
  have a5: "\<not> within_tolerance (6/100) (py_float ''0.05'')" by code_simp
  have fm: "fmt_fixed 2 (6/100) = ''0.06''" by code_simp
  have b1: "3 < length milestone_doc" by (simp add: milestone_doc_def)
  have b2: "(case search_ms_id (milestone_doc ! 3) of Some k \<Rightarrow> Some k | None \<Rightarrow> Some ''ms_points_500'')
        = Some ''ms_points_500''" by code_simp
  have b3: "search_reward (milestone_doc ! 3) = Some ''prestige_gain''" by code_simp
  have b4: "MILESTONE_REWARDS (''ms_points_500'', ''prestige_gain'') = Some (25/1000)" by code_simp
  have fn: "fmt_milestone (25/1000) = ''0.025''" by code_simp
  note t = rewrite_locality [where i = 2 and lines = node_doc and n = 0 and target = "''xpGain''"
      and lit = "''0.05''" and row = 10 and new_mult = "6/100"]
  have fc: "first_multiplier (node_doc ! 2)
        = Some (''    effects: [{ target: 'xpGain', '', ''multiplier: '', ''0.05'', '' }],\<newline>'')"
    by code_simp
  have hc: "first_multiplier (tl (''multiplier:'' @ '' '' @ ''0.05'' @ '' }],\<newline>'')) = None"
    by code_simp
  from t [THEN conjunct2, THEN conjunct1, THEN mp, OF conjI [OF a1 conjI [OF a2 conjI [OF a3 conjI [OF a4 a5]]]]]
  obtain pre ws old post where
    p1: "first_multiplier (node_doc ! 2) = Some (pre, ''multiplier:'' @ ws, old, post)"
    and p2: "fst (process_line 2 (node_doc, 0)) ! 2 = pre @ ''multiplier:'' @ ws @ ''0.06'' @ post"
    and p3: "first_multiplier (tl (''multiplier:'' @ ws @ old @ post)) = None \<longrightarrow> old = ''0.05''"
    unfolding fm by (elim exE conjE)
  from p1 have e: "pre = ''    effects: [{ target: 'xpGain', ''" "ws = '' ''" "old = ''0.05''"
    "post = '' }],\<newline>''"
    unfolding fc by auto
  from p3 [unfolded e, THEN mp, OF hc] have "''0.05'' = ''0.05''" .
  have s: "fst (process_line 2 (node_doc, 0)) ! 2
        = ''    effects: [{ target: 'xpGain', multiplier: 0.06 }],\<newline>''"
    unfolding p2 e by simp
  note u = rewrite_locality [where i = 3 and lines = milestone_doc and cur_ms = "Some ''ms_points_500''"
      and ms = "''ms_points_500''" and rtype = "''prestige_gain''" and nv = "25/1000" and mc = 0]
  from u [THEN conjunct2, THEN conjunct2, THEN conjunct2, THEN conjunct2, THEN conjunct1, THEN mp,
      OF conjI [OF b1 conjI [OF b2 conjI [OF b3 b4]]]]
  have m: "\<exists>pre g old post.
          milestone_doc ! 3 = pre @ g @ old @ post
        \<and> milestone_line 3 (milestone_doc, Some ''ms_points_500'', 0)
            = (milestone_doc[3 := pre @ g @ fmt_milestone (25/1000) @ post], Some ''ms_points_500'', 0 + 1)"
    by (elim exE conjE) (intro exI conjI)
  from a1 a2 a3 a4 a5 fm fc hc s b1 b2 b3 b4 m fn show ?thesis by (intro conjI)
qed

text \<open>
  Claim C1. Running the patcher on its own output is not always a no-op. On a line that
  holds two effects written with the multiplier before the target, the search pairs the
  first target with the second multiplier, while the substitution rewrites the first
  multiplier of the line: the compared literal never changes, so every later run rewrites
  again and reports one change, and the description it propagates overwrites the one a
  later node had set, so the second run also returns different text.
\<close>

theorem second_run_not_noop:
  "process_skill_file twin_doc = (twin_doc_once, 1)
   \<and> process_skill_file twin_doc_once = (twin_doc_once, 1)
   \<and> process_skill_file twin_doc2 = (twin_doc2_once, 2)
   \<and> process_skill_file twin_doc2_once = (twin_doc2_twice, 1)
   \<and> twin_doc2_twice \<noteq> twin_doc2_once"
  by code_simp

end
